theory Spec2Isabelle
  imports Main "HOL-Library.AList" "HOL-Library.Multiset" "HOL-Library.Sublist"
begin

section \<open>Toronto bike share loader: data model\<close>

text \<open>
  The program \<^verbatim>\<open>toronto_bike_share/load_tbs.py\<close> is a pipeline of four free
  functions over a working directory \<^verbatim>\<open>data/\<close>, a DuckDB connection and the
  network. The embedding makes each of these an explicit component of a \<open>world\<close>
  record that every function takes and returns. An exception is a value: a function
  returns \<open>Inl (e, w)\<close> when the Python raises \<open>e\<close>, with \<open>w\<close> the world as the raise left
  it (Python does not roll side effects back), and \<open>Inr w\<close> when it returns normally.

  The repository holds an older copy of the program,
  \<^verbatim>\<open>toronto-bike-share/load_tbs.py\<close>. Its download loop and its INSERT statement
  are those of the newer file; it logs nothing, creates no enum types (the two
  categorical columns are VARCHAR), and removes a flattened folder with
  \<^verbatim>\<open>os.removedirs\<close> where the newer file calls \<^verbatim>\<open>Path.rmdir\<close>. The definitions
  follow the newer file; the older walk is \<open>flatten_walk_legacy\<close>.
\<close>

subsection \<open>Trip records and the database catalog\<close>

text \<open>
  The columns of \<^verbatim>\<open>tbs_trips\<close>, in the order of the CREATE TABLE statement. Every
  column is nullable (\<open>None\<close> is SQL NULL). INTEGER values are \<open>int\<close>: the program does
  no arithmetic on them. A TIMESTAMP is its number of microseconds.
\<close>

datatype user = Casual_Member | Annual_Member

datatype bike = EFIT_G5 | ICONIC | EFIT

record trip =
  Trip_Id :: "int option"
  Trip_Duration :: "int option"
  Start_Station_Id :: "int option"
  Start_Time :: "int option"
  Start_Station_Name :: "string option"
  End_Station_Id :: "int option"
  End_Time :: "int option"
  End_Station_Name :: "string option"
  Bike_Id :: "int option"
  User_Type :: "user option"
  Model :: "bike option"

text \<open>
  The catalog of the connection: the enum types by name with their labels, and the
  table \<^verbatim>\<open>tbs_trips\<close>, \<open>None\<close> while it has not been created. A table is a bag of
  rows, kept as a list in insertion order.
\<close>

record database =
  types :: "(string \<times> string list) list"
  tbs_trips :: "trip list option"

subsection \<open>Files, archives and the file system\<close>

text \<open>
  A path is its list of components, relative to the current directory, so
  \<^verbatim>\<open>data/tbs.parquet\<close> is \<open>[''data'', ''tbs.parquet'']\<close>. The bytes of a file are
  kept as what the program can do with them: a zip archive is its member list (a member
  is its name, split at \<^verbatim>\<open>/\<close>, and its bytes, \<open>None\<close> for a directory member), a
  parquet file is its rows, anything else is raw text.
\<close>

type_synonym path = "string list"

datatype content =
    Raw string
  | Zip "(string list \<times> content option) list"
  | Parquet "trip list"

datatype node = File content | Dir

text \<open>
  The file system is an association list from paths to nodes, read through \<open>map_of\<close>
  (the first entry of a path is the one that counts). The current directory is the
  empty path; it always exists.
\<close>

type_synonym filesys = "(path \<times> node) list"

datatype error =
    ConnectionError
  | BadZipFile
  | FileNotFoundError
  | IsADirectoryError
  | NotADirectoryError
  | FileExistsError
  | DirectoryNotEmpty
  | CatalogException
  | IOException
  | InvalidArgument
  | EOFError

datatype level = DEBUG | INFO

text \<open>
  \<open>LOGGER\<close> holds the records the root logger emitted, oldest first; \<open>requests\<close> the
  URLs of the HTTP GETs issued, oldest first.
\<close>

record world =
  fsys :: filesys
  conn :: database
  LOGGER :: "(level \<times> string) list"
  requests :: "string list"

type_synonym 's outcome = "(error \<times> 's) + 's"

subsection \<open>Logging and string formatting\<close>

text \<open>
  \<^verbatim>\<open>logging.basicConfig(level=logging.INFO)\<close>: the root logger drops records below
  INFO.
\<close>

definition log_record :: "level \<Rightarrow> string \<Rightarrow> world \<Rightarrow> world" where
  "log_record lvl msg w = (if lvl = DEBUG then w else w\<lparr>LOGGER := LOGGER w @ [(lvl, msg)]\<rparr>)"

text \<open>\<^verbatim>\<open>str(n)\<close> of a Python int, as \<^verbatim>\<open>%s\<close> and an f-string format it.\<close>

fun str_nat :: "nat \<Rightarrow> string" where
  "str_nat n = (if n < 10 then [''0123456789'' ! n] else str_nat (n div 10) @ [''0123456789'' ! (n mod 10)])"

declare str_nat.simps [simp del]

definition str_int :: "int \<Rightarrow> string" where
  "str_int i = (if i < 0 then ''-'' @ str_nat (nat (- i)) else str_nat (nat i))"

section \<open>Load\<close>

text \<open>
  \<^verbatim>\<open>CREATE TYPE name AS ENUM (...)\<close> raises a CatalogException when a type of that
  name exists.
\<close>

definition create_type :: "string \<Rightarrow> string list \<Rightarrow> database \<Rightarrow> error + database" where
  "create_type name labels d =
     (case map_of (types d) name of
        Some _ \<Rightarrow> Inl CatalogException
      | None \<Rightarrow> Inr (d\<lparr>types := (name, labels) # types d\<rparr>))"

text \<open>
  \<^verbatim>\<open>CREATE TABLE IF NOT EXISTS tbs_trips (..., "User Type" user, "Model" bike)\<close>:
  the column types are resolved first (a missing type is a CatalogException), then an
  existing table is left as it is. DuckDB keeps the types of an existing table in the
  catalog, so which of the two checks comes first shows in no state it can be in.
\<close>

definition create_table :: "database \<Rightarrow> error + database" where
  "create_table d =
     (if map_of (types d) ''user'' = None \<or> map_of (types d) ''bike'' = None
      then Inl CatalogException
      else case tbs_trips d of
             Some _ \<Rightarrow> Inr d
           | None \<Rightarrow> Inr (d\<lparr>tbs_trips := Some []\<rparr>))"

text \<open>
  SQL equality is three-valued: comparing with NULL gives NULL (\<open>None\<close>), which a WHERE
  clause does not take for true.
\<close>

definition sql_eq :: "'a option \<Rightarrow> 'a option \<Rightarrow> bool option" where
  "sql_eq a b = (case a of None \<Rightarrow> None | Some x \<Rightarrow> (case b of None \<Rightarrow> None | Some y \<Rightarrow> Some (x = y)))"

text \<open>
  \<^verbatim>\<open>EXISTS (SELECT 1 FROM tbs_trips WHERE tbs_trips."Trip Id" = new_data."Trip Id")\<close>
  for one row of \<^verbatim>\<open>new_data\<close>.
\<close>

definition exists_trip :: "trip list \<Rightarrow> trip \<Rightarrow> bool" where
  "exists_trip tbl r = list_ex (\<lambda>t. sql_eq (Trip_Id t) (Trip_Id r) = Some True) tbl"

text \<open>
  The INSERT ... SELECT ... WHERE NOT EXISTS statement. \<open>new_data\<close> is the relation
  \<^verbatim>\<open>read_csv\<close> produced from the files matching
  \<^verbatim>\<open>data/Bike share ridership 202*.csv\<close>, unioned by name, in file order, with the
  columns already of the table's types: the CSV reader is DuckDB's and is a parameter of
  the model. The subquery reads the table as it was when the statement began, so the
  rows the statement itself inserts are not seen by it. The result is the new table and
  the count of inserted rows that \<^verbatim>\<open>fetchone()\<close> returns.
\<close>

definition insert_new :: "trip list \<Rightarrow> database \<Rightarrow> error + (database \<times> nat)" where
  "insert_new new_data d =
     (case tbs_trips d of
        None \<Rightarrow> Inl CatalogException
      | Some tbl \<Rightarrow>
          (let selected = filter (\<lambda>r. \<not> exists_trip tbl r) new_data
           in Inr (d\<lparr>tbs_trips := Some (tbl @ selected)\<rparr>, length selected)))"

text \<open>
  The try block of \<^verbatim>\<open>load_data\<close>: the second CREATE TYPE runs only when the first
  did not raise; a CatalogException of either is caught and one INFO record is logged.
  After it, the DEBUG record of the table creation is dropped by the logger, and the
  result of \<^verbatim>\<open>fetchone()\<close> is the one-row tuple of the count, which is true for
  \<^verbatim>\<open>if num_rows\<close> whatever the count: the last record is always logged.
\<close>

definition create_types :: "world \<Rightarrow> world outcome" where
  "create_types w =
     (case create_type ''user'' [''Casual Member'', ''Annual Member''] (conn w) of
        Inl e \<Rightarrow>
          (if e = CatalogException
           then Inr (log_record INFO ''`User Type` enum is already defined'' w)
           else Inl (e, w))
      | Inr d1 \<Rightarrow>
          (case create_type ''bike'' [''EFIT G5'', ''ICONIC'', ''EFIT''] d1 of
             Inl e \<Rightarrow>
               (if e = CatalogException
                then Inr (log_record INFO ''`User Type` enum is already defined''
                            (w\<lparr>conn := d1\<rparr>))
                else Inl (e, w\<lparr>conn := d1\<rparr>))
           | Inr d2 \<Rightarrow> Inr (w\<lparr>conn := d2\<rparr>)))"

definition load_data :: "trip list \<Rightarrow> world \<Rightarrow> world outcome" where
  "load_data new_data w =
     (case create_types w of
        Inl x \<Rightarrow> Inl x
      | Inr w1 \<Rightarrow>
          (let w2 = log_record DEBUG ''Creating table tbs_trips'' w1 in
           case create_table (conn w2) of
             Inl e \<Rightarrow> Inl (e, w2)
           | Inr d3 \<Rightarrow>
               (let w3 = log_record INFO ''Inserting new data'' (w2\<lparr>conn := d3\<rparr>) in
                case insert_new new_data (conn w3) of
                  Inl e \<Rightarrow> Inl (e, w3)
                | Inr (d4, num_rows) \<Rightarrow>
                    Inr (log_record INFO (''Inserted '' @ str_nat num_rows @ '' rows'')
                           (w3\<lparr>conn := d4\<rparr>)))))"

text \<open>The rows of the table; a table that does not exist has none.\<close>

definition rows :: "world \<Rightarrow> trip list" where
  "rows w = (case tbs_trips (conn w) of None \<Rightarrow> [] | Some tbl \<Rightarrow> tbl)"

text \<open>
  The catalog states from which \<^verbatim>\<open>load_data\<close> reaches its INSERT: when the type
  \<^verbatim>\<open>user\<close> exists the try block stops at its first statement, so \<^verbatim>\<open>bike\<close>
  must exist too for the table's column types to resolve.
\<close>

definition catalog_ready :: "database \<Rightarrow> bool" where
  "catalog_ready d = (map_of (types d) ''user'' = None \<or> map_of (types d) ''bike'' \<noteq> None)"

section \<open>File system operations\<close>

text \<open>
  The operations follow their POSIX behaviour on Linux, which is what
  \<^verbatim>\<open>pathlib\<close>, \<^verbatim>\<open>os\<close> and \<^verbatim>\<open>zipfile\<close> call. An operation on one path
  returns \<open>Inl e\<close> and leaves the file system as it was when the call raises.
\<close>

definition lookup :: "filesys \<Rightarrow> path \<Rightarrow> node option" where
  "lookup fs p = (if p = [] then Some Dir else map_of fs p)"

definition is_dir :: "filesys \<Rightarrow> path \<Rightarrow> bool" where
  "is_dir fs p = (lookup fs p = Some Dir)"

definition is_file :: "filesys \<Rightarrow> path \<Rightarrow> bool" where
  "is_file fs p = (case lookup fs p of Some (File _) \<Rightarrow> True | _ \<Rightarrow> False)"

text \<open>The names directly inside a directory, each once.\<close>

definition listdir :: "filesys \<Rightarrow> path \<Rightarrow> string list" where
  "listdir fs p = remdups (map (\<lambda>(q, n). last q) (filter (\<lambda>(q, n). q \<noteq> [] \<and> butlast q = p) fs))"

text \<open>A directory is not empty when some path is stored below it.\<close>

definition has_entries :: "filesys \<Rightarrow> path \<Rightarrow> bool" where
  "has_entries fs p = list_ex (\<lambda>(q, n). strict_prefix p q) fs"

text \<open>
  What \<^verbatim>\<open>os.walk\<close> reads of one directory: the names of its subdirectories and
  of its other entries; \<open>None\<close> when the path is no directory (\<^verbatim>\<open>os.walk\<close>
  ignores the error of \<^verbatim>\<open>scandir\<close> and yields nothing for it).
\<close>

definition scandir :: "filesys \<Rightarrow> path \<Rightarrow> (string list \<times> string list) option" where
  "scandir fs root =
     (if is_dir fs root
      then Some (filter (\<lambda>name. is_dir fs (root @ [name])) (listdir fs root),
                 filter (\<lambda>name. \<not> is_dir fs (root @ [name])) (listdir fs root))
      else None)"

text \<open>\<^verbatim>\<open>Path.unlink()\<close>.\<close>

definition unlink :: "path \<Rightarrow> filesys \<Rightarrow> error + filesys" where
  "unlink p fs =
     (case lookup fs p of
        None \<Rightarrow> Inl FileNotFoundError
      | Some Dir \<Rightarrow> Inl IsADirectoryError
      | Some (File _) \<Rightarrow> Inr (AList.delete p fs))"

text \<open>\<^verbatim>\<open>Path.rmdir()\<close>: only an empty directory is removed.\<close>

definition rmdir :: "path \<Rightarrow> filesys \<Rightarrow> error + filesys" where
  "rmdir p fs =
     (case lookup fs p of
        None \<Rightarrow> Inl FileNotFoundError
      | Some (File _) \<Rightarrow> Inl NotADirectoryError
      | Some Dir \<Rightarrow>
          (if p = [] then Inl InvalidArgument
           else if has_entries fs p then Inl DirectoryNotEmpty
           else Inr (AList.delete p fs)))"

text \<open>
  \<^verbatim>\<open>Path.rename(target)\<close>: a file replaces an existing file silently and cannot
  replace a directory; a directory moves with everything stored below it.
\<close>

definition move_tree :: "path \<Rightarrow> path \<Rightarrow> filesys \<Rightarrow> filesys" where
  "move_tree src dst fs =
     map (\<lambda>(q, n). if prefix src q then (dst @ drop (length src) q, n) else (q, n)) fs"

definition rename :: "path \<Rightarrow> path \<Rightarrow> filesys \<Rightarrow> error + filesys" where
  "rename src dst fs =
     (case lookup fs src of
        None \<Rightarrow> Inl FileNotFoundError
      | Some (File c) \<Rightarrow>
          (if src = dst then Inr fs
           else case lookup fs (butlast dst) of
                  None \<Rightarrow> Inl FileNotFoundError
                | Some (File _) \<Rightarrow> Inl NotADirectoryError
                | Some Dir \<Rightarrow>
                    (case lookup fs dst of
                       Some Dir \<Rightarrow> Inl IsADirectoryError
                     | _ \<Rightarrow> Inr (AList.update dst (File c) (AList.delete src fs))))
      | Some Dir \<Rightarrow>
          (if src = dst then Inr fs
           else if prefix src dst then Inl InvalidArgument
           else case lookup fs (butlast dst) of
                  None \<Rightarrow> Inl FileNotFoundError
                | Some (File _) \<Rightarrow> Inl NotADirectoryError
                | Some Dir \<Rightarrow>
                    (case lookup fs dst of
                       Some (File _) \<Rightarrow> Inl NotADirectoryError
                     | Some Dir \<Rightarrow>
                         (if has_entries fs dst then Inl DirectoryNotEmpty
                          else Inr (move_tree src dst (AList.delete dst fs)))
                     | None \<Rightarrow> Inr (move_tree src dst fs))))"

section \<open>Fetch and unpack\<close>

subsection \<open>Flattening a year's subfolder\<close>

text \<open>
  The inner loop of the flattening fixup:
  \<^verbatim>\<open>for file in files: Path(root, file).rename(Path("data", file))\<close>.
\<close>

fun move_files :: "path \<Rightarrow> string list \<Rightarrow> filesys \<Rightarrow> filesys outcome" where
  "move_files root [] fs = Inr fs"
| "move_files root (file # files) fs =
     (case rename (root @ [file]) [''data'', file] fs of
        Inl e \<Rightarrow> Inl (e, fs)
      | Inr fs1 \<Rightarrow> move_files root files fs1)"

text \<open>
  The number of directory entries stored: it does not grow when files are renamed and
  shrinks when a directory is removed, which bounds the walk below.
\<close>

definition ndirs :: "filesys \<Rightarrow> nat" where
  "ndirs fs = length (filter (\<lambda>(q, n). n = Dir) fs)"

lemma ndirs_delete_le: "ndirs (AList.delete k fs) \<le> ndirs fs"
  by (induction fs) (auto simp: ndirs_def)

lemma ndirs_delete_less: "map_of fs k = Some Dir \<Longrightarrow> ndirs (AList.delete k fs) < ndirs fs"
proof (induction fs)
  case Nil
  then show ?case by simp
next
  case (Cons a fs)
  obtain q n where a: "a = (q, n)" by (cases a)
  show ?case
  proof (cases "q = k")
    case True
    with Cons.prems a have "n = Dir" by simp
    with True a ndirs_delete_le[of k fs] show ?thesis by (simp add: ndirs_def)
  next
    case False
    with Cons a show ?thesis by (simp add: ndirs_def)
  qed
qed

lemma ndirs_update_File: "ndirs (AList.update k (File c) fs) \<le> ndirs fs"
  by (induction fs) (auto simp: ndirs_def)

lemma ndirs_move_tree: "ndirs (move_tree src dst fs) = ndirs fs"
  by (induction fs) (auto simp: ndirs_def move_tree_def split: if_splits)

lemma ndirs_rename: "rename src dst fs = Inr fs' \<Longrightarrow> ndirs fs' \<le> ndirs fs"
  using ndirs_update_File[of dst _ "AList.delete src fs"] ndirs_delete_le[of src fs]
    ndirs_delete_le[of dst fs]
  by (auto simp: rename_def ndirs_move_tree split: option.splits node.splits if_splits
      intro: le_trans)

lemma ndirs_move_files: "move_files root files fs = Inr fs' \<Longrightarrow> ndirs fs' \<le> ndirs fs"
proof (induction files arbitrary: fs)
  case Nil
  then show ?case by simp
next
  case (Cons f files)
  then show ?case
    by (auto split: sum.splits dest!: ndirs_rename intro: le_trans)
qed

lemma ndirs_rmdir: "rmdir p fs = Inr fs' \<Longrightarrow> ndirs fs' < ndirs fs"
  by (auto simp: rmdir_def lookup_def split: option.splits node.splits if_splits
      intro: ndirs_delete_less)

text \<open>
  \<^verbatim>\<open>for root, _, files in os.walk(top): <move the files>; Path(root).rmdir()\<close>.
  \<^verbatim>\<open>os.walk\<close> is top-down: it keeps a stack of directories still to visit, reads
  the directory on top when it reaches it, yields it to the loop body, and then pushes
  that directory's subdirectories (as listed before the body ran). The walk starts as
  \<open>flatten_walk [top]\<close>.
\<close>

function flatten_walk :: "path list \<Rightarrow> filesys \<Rightarrow> filesys outcome" where
  "flatten_walk [] fs = Inr fs"
| "flatten_walk (root # stack) fs =
     (case scandir fs root of
        None \<Rightarrow> flatten_walk stack fs
      | Some (dirs, files) \<Rightarrow>
          (case move_files root files fs of
             Inl x \<Rightarrow> Inl x
           | Inr fs1 \<Rightarrow>
               (case rmdir root fs1 of
                  Inl e \<Rightarrow> Inl (e, fs1)
                | Inr fs2 \<Rightarrow> flatten_walk (map (\<lambda>d. root @ [d]) dirs @ stack) fs2)))"
  by pat_completeness auto
termination
proof (relation "measures [\<lambda>(stack, fs). ndirs fs, \<lambda>(stack, fs). length stack]")
  show "wf (measures [\<lambda>(stack, fs). ndirs fs, \<lambda>(stack, fs). length stack])" by simp
next
  fix root :: path and stack :: "path list" and fs :: filesys
  show "((stack, fs), root # stack, fs) \<in> measures [\<lambda>(stack, fs). ndirs fs, \<lambda>(stack, fs). length stack]"
    by simp
next
  fix root :: path and stack :: "path list" and fs fs1 fs2 :: filesys
    and x2 :: "string list \<times> string list" and dirs files :: "string list"
  assume "move_files root files fs = Inr fs1" "rmdir root fs1 = Inr fs2"
  then have "ndirs fs2 < ndirs fs"
    using ndirs_move_files ndirs_rmdir by (meson le_trans not_le)
  then show "((map (\<lambda>d. root @ [d]) dirs @ stack, fs2), root # stack, fs)
      \<in> measures [\<lambda>(stack, fs). ndirs fs, \<lambda>(stack, fs). length stack]"
    by simp
qed

text \<open>
  The older copy \<^verbatim>\<open>toronto-bike-share/load_tbs.py\<close> runs the same walk with
  \<^verbatim>\<open>os.rename\<close> and \<^verbatim>\<open>os.removedirs(root)\<close>: after the directory itself,
  \<^verbatim>\<open>removedirs\<close> removes its parents, nearest first, for as long as they are
  empty, and ignores the error that stops it.
\<close>

fun prune :: "path list \<Rightarrow> filesys \<Rightarrow> filesys" where
  "prune [] fs = fs"
| "prune (p # ps) fs = (case rmdir p fs of Inl e \<Rightarrow> fs | Inr fs1 \<Rightarrow> prune ps fs1)"

definition removedirs :: "path \<Rightarrow> filesys \<Rightarrow> error + filesys" where
  "removedirs p fs =
     (case rmdir p fs of
        Inl e \<Rightarrow> Inl e
      | Inr fs1 \<Rightarrow> Inr (prune (rev (tl (butlast (prefixes p)))) fs1))"

lemma ndirs_prune: "ndirs (prune ps fs) \<le> ndirs fs"
proof (induction ps arbitrary: fs)
  case Nil
  then show ?case by simp
next
  case (Cons p ps)
  show ?case
  proof (cases "rmdir p fs")
    case (Inl e)
    then show ?thesis by simp
  next
    case (Inr fs1)
    from ndirs_rmdir[OF Inr] Cons.IH[of fs1] Inr show ?thesis by simp
  qed
qed

lemma ndirs_removedirs: "removedirs p fs = Inr fs' \<Longrightarrow> ndirs fs' < ndirs fs"
proof -
  assume a: "removedirs p fs = Inr fs'"
  then obtain fs1 where r: "rmdir p fs = Inr fs1"
    and p: "fs' = prune (rev (tl (butlast (prefixes p)))) fs1"
    by (auto simp: removedirs_def split: sum.splits)
  from ndirs_rmdir[OF r] ndirs_prune[of "rev (tl (butlast (prefixes p)))" fs1] p
  show ?thesis by simp
qed

function flatten_walk_legacy :: "path list \<Rightarrow> filesys \<Rightarrow> filesys outcome" where
  "flatten_walk_legacy [] fs = Inr fs"
| "flatten_walk_legacy (root # stack) fs =
     (case scandir fs root of
        None \<Rightarrow> flatten_walk_legacy stack fs
      | Some (dirs, files) \<Rightarrow>
          (case move_files root files fs of
             Inl x \<Rightarrow> Inl x
           | Inr fs1 \<Rightarrow>
               (case removedirs root fs1 of
                  Inl e \<Rightarrow> Inl (e, fs1)
                | Inr fs2 \<Rightarrow> flatten_walk_legacy (map (\<lambda>d. root @ [d]) dirs @ stack) fs2)))"
  by pat_completeness auto
termination
proof (relation "measures [\<lambda>(stack, fs). ndirs fs, \<lambda>(stack, fs). length stack]")
  show "wf (measures [\<lambda>(stack, fs). ndirs fs, \<lambda>(stack, fs). length stack])" by simp
next
  fix root :: path and stack :: "path list" and fs :: filesys
  show "((stack, fs), root # stack, fs) \<in> measures [\<lambda>(stack, fs). ndirs fs, \<lambda>(stack, fs). length stack]"
    by simp
next
  fix root :: path and stack :: "path list" and fs fs1 fs2 :: filesys
    and x2 :: "string list \<times> string list" and dirs files :: "string list"
  assume "move_files root files fs = Inr fs1" "removedirs root fs1 = Inr fs2"
  then have "ndirs fs2 < ndirs fs"
    using ndirs_move_files ndirs_removedirs by (meson le_trans not_le)
  then show "((map (\<lambda>d. root @ [d]) dirs @ stack, fs2), root # stack, fs)
      \<in> measures [\<lambda>(stack, fs). ndirs fs, \<lambda>(stack, fs). length stack]"
    by simp
qed

subsection \<open>Extracting an archive\<close>

text \<open>
  \<^verbatim>\<open>ZipFile.extractall(target)\<close> extracts the members in order. For each member
  \<^verbatim>\<open>zipfile\<close> drops the empty, \<^verbatim>\<open>.\<close> and \<^verbatim>\<open>..\<close> components of its name,
  creates the directories above the target path (\<^verbatim>\<open>os.makedirs\<close>), and then makes
  the directory or writes the file, replacing a file of the same path. What was
  extracted before a member fails stays on disk.
\<close>

definition arcname :: "string list \<Rightarrow> path" where
  "arcname name = filter (\<lambda>x. x \<noteq> [] \<and> x \<noteq> ''.'' \<and> x \<noteq> ''..'') name"

fun makedirs :: "path \<Rightarrow> string list \<Rightarrow> filesys \<Rightarrow> filesys outcome" where
  "makedirs pre [] fs = Inr fs"
| "makedirs pre (x # xs) fs =
     (case lookup fs (pre @ [x]) of
        None \<Rightarrow> makedirs (pre @ [x]) xs (AList.update (pre @ [x]) Dir fs)
      | Some Dir \<Rightarrow> makedirs (pre @ [x]) xs fs
      | Some (File _) \<Rightarrow> Inl (NotADirectoryError, fs))"

definition extract_member :: "path \<Rightarrow> string list \<times> content option \<Rightarrow> filesys \<Rightarrow> filesys outcome" where
  "extract_member target member fs =
     (let targetpath = target @ arcname (fst member) in
      case makedirs [] (butlast targetpath) fs of
        Inl x \<Rightarrow> Inl x
      | Inr fs1 \<Rightarrow>
          (case snd member of
             None \<Rightarrow>
               (case lookup fs1 targetpath of
                  Some Dir \<Rightarrow> Inr fs1
                | Some (File _) \<Rightarrow> Inl (FileExistsError, fs1)
                | None \<Rightarrow> Inr (AList.update targetpath Dir fs1))
           | Some bytes \<Rightarrow>
               (case lookup fs1 targetpath of
                  Some Dir \<Rightarrow> Inl (IsADirectoryError, fs1)
                | _ \<Rightarrow> Inr (AList.update targetpath (File bytes) fs1))))"

fun extractall :: "path \<Rightarrow> (string list \<times> content option) list \<Rightarrow> filesys \<Rightarrow> filesys outcome" where
  "extractall target [] fs = Inr fs"
| "extractall target (member # members) fs =
     (case extract_member target member fs of
        Inl x \<Rightarrow> Inl x
      | Inr fs1 \<Rightarrow> extractall target members fs1)"

text \<open>
  The archive of a download is read from memory (\<^verbatim>\<open>io.BytesIO\<close>). An archive
  opened from a file of the disk is read while its members are written: writing a
  member to the archive's own path truncates the archive. The member being written then
  reads as empty (an EOFError, unless it is empty), and no member after it can be read
  (BadZipFile). \<open>intact\<close> says that the archive on disk is still the one that was opened.
  A directory member is made without reading the archive.
\<close>

definition extract_member_open ::
  "path \<Rightarrow> bool \<Rightarrow> path \<Rightarrow> string list \<times> content option \<Rightarrow> filesys
     \<Rightarrow> (error \<times> filesys) + (filesys \<times> bool)" where
  "extract_member_open archive intact target member fs =
     (let targetpath = target @ arcname (fst member) in
      case makedirs [] (butlast targetpath) fs of
        Inl x \<Rightarrow> Inl x
      | Inr fs1 \<Rightarrow>
          (case snd member of
             None \<Rightarrow>
               (case lookup fs1 targetpath of
                  Some Dir \<Rightarrow> Inr (fs1, intact)
                | Some (File _) \<Rightarrow> Inl (FileExistsError, fs1)
                | None \<Rightarrow> Inr (AList.update targetpath Dir fs1, intact))
           | Some bytes \<Rightarrow>
               (if \<not> intact then Inl (BadZipFile, fs1)
                else case lookup fs1 targetpath of
                       Some Dir \<Rightarrow> Inl (IsADirectoryError, fs1)
                     | _ \<Rightarrow>
                         (if targetpath \<noteq> archive
                          then Inr (AList.update targetpath (File bytes) fs1, True)
                          else if bytes = Raw []
                          then Inr (AList.update targetpath (File (Raw [])) fs1, False)
                          else Inl (EOFError, AList.update targetpath (File (Raw [])) fs1)))))"

fun extractall_open ::
  "path \<Rightarrow> bool \<Rightarrow> path \<Rightarrow> (string list \<times> content option) list \<Rightarrow> filesys \<Rightarrow> filesys outcome" where
  "extractall_open archive intact target [] fs = Inr fs"
| "extractall_open archive intact target (member # members) fs =
     (case extract_member_open archive intact target member fs of
        Inl x \<Rightarrow> Inl x
      | Inr (fs1, intact1) \<Rightarrow> extractall_open archive intact1 target members fs1)"

text \<open>\<^verbatim>\<open>ZipFile(path)\<close>: opening a file of the disk as an archive.\<close>

definition ZipFile :: "path \<Rightarrow> filesys \<Rightarrow> error + (string list \<times> content option) list" where
  "ZipFile p fs =
     (case lookup fs p of
        None \<Rightarrow> Inl FileNotFoundError
      | Some Dir \<Rightarrow> Inl IsADirectoryError
      | Some (File (Zip members)) \<Rightarrow> Inr members
      | Some (File _) \<Rightarrow> Inl BadZipFile)"

subsection \<open>The download loop\<close>

text \<open>
  \<^verbatim>\<open>requests.get(url, timeout=60)\<close> either raises (no connection, timeout) or returns
  a response with a status code and a body. The network is a parameter of the model: a
  function from the URL to what the GET gives.
\<close>

datatype http_result = Unreachable | Response nat content

definition BASE_URL :: string where
  "BASE_URL = ''https://ckan0.cf.opendata.inter.prod-toronto.ca/dataset/7e876c24-177c-4605-9cef-e50dd74c617f/resource''"

definition YEAR_MAP :: "(int \<times> string) list" where
  "YEAR_MAP =
     [(2021, ''ddc039f6-07fa-47a3-a707-0121ade3b307''),
      (2022, ''db10a7b1-2702-481c-b7f0-0c67070104bb''),
      (2023, ''f0fa6a67-4571-4dd6-9d5a-df010ebed7d1''),
      (2024, ''9a9a0163-8114-447c-bf66-790b1a92da51'')]"

definition REMOVE_FOLDER :: "int list" where
  "REMOVE_FOLDER = [2022, 2023]"

definition BAD_YEAR :: int where
  "BAD_YEAR = 2022"

definition download_url :: "int \<Rightarrow> string \<Rightarrow> string" where
  "download_url year resource_id =
     BASE_URL @ ''/'' @ resource_id @ ''/download/bikeshare-ridership-'' @ str_int year @ ''.zip''"

text \<open>
  The first half of the loop body, up to \<^verbatim>\<open>z.extractall("data")\<close>. The status
  code of the response is not read; \<^verbatim>\<open>ZipFile(io.BytesIO(r.content))\<close> raises
  BadZipFile when the body is not an archive.
\<close>

definition fetch_extract :: "(string \<Rightarrow> http_result) \<Rightarrow> int \<times> string \<Rightarrow> world \<Rightarrow> world outcome" where
  "fetch_extract net item w =
     (let w1 = log_record INFO (''Downloading data for year: '' @ str_int (fst item)) w;
          url = download_url (fst item) (snd item);
          w2 = w1\<lparr>requests := requests w1 @ [url]\<rparr>
      in case net url of
           Unreachable \<Rightarrow> Inl (ConnectionError, w2)
         | Response status body \<Rightarrow>
             (case body of
                Zip members \<Rightarrow>
                  (case extractall [''data''] members (fsys w2) of
                     Inl (e, fs1) \<Rightarrow> Inl (e, w2\<lparr>fsys := fs1\<rparr>)
                   | Inr fs1 \<Rightarrow> Inr (w2\<lparr>fsys := fs1\<rparr>))
              | _ \<Rightarrow> Inl (BadZipFile, w2)))"

text \<open>
  The special case of \<open>BAD_YEAR\<close>: the nested archive is extracted into the year's
  folder and then unlinked.
\<close>

definition jank_file :: path where
  "jank_file = [''data'', ''bikeshare-ridership-2022'', ''Bike share ridership 2022-11.zip'']"

definition extract_nested :: "filesys \<Rightarrow> filesys outcome" where
  "extract_nested fs =
     (case ZipFile jank_file fs of
        Inl e \<Rightarrow> Inl (e, fs)
      | Inr members \<Rightarrow>
          (case extractall_open jank_file True [''data'', ''bikeshare-ridership-2022''] members fs of
             Inl x \<Rightarrow> Inl x
           | Inr fs1 \<Rightarrow>
               (case unlink jank_file fs1 of
                  Inl e \<Rightarrow> Inl (e, fs1)
                | Inr fs2 \<Rightarrow> Inr fs2)))"

text \<open>
  The two fixups of the loop body, in the source's order: the nested archive when the
  year is \<open>BAD_YEAR\<close>, then the flattening walk over
  \<^verbatim>\<open>data/bikeshare-ridership-{year}\<close> when the year is in \<open>REMOVE_FOLDER\<close>.
\<close>

definition year_folder :: "int \<Rightarrow> path" where
  "year_folder year = [''data'', ''bikeshare-ridership-'' @ str_int year]"

definition fixups :: "int \<Rightarrow> filesys \<Rightarrow> filesys outcome" where
  "fixups year fs =
     (case (if year = BAD_YEAR then extract_nested fs else Inr fs) of
        Inl x \<Rightarrow> Inl x
      | Inr fs1 \<Rightarrow>
          (if year \<in> set REMOVE_FOLDER then flatten_walk [year_folder year] fs1 else Inr fs1))"

text \<open>One iteration of the loop; \<^verbatim>\<open>if not unzip: continue\<close> skips the fixups.\<close>

definition download_year :: "bool \<Rightarrow> (string \<Rightarrow> http_result) \<Rightarrow> int \<times> string \<Rightarrow> world \<Rightarrow> world outcome" where
  "download_year unzip net item w =
     (case fetch_extract net item w of
        Inl x \<Rightarrow> Inl x
      | Inr w1 \<Rightarrow>
          (if \<not> unzip then Inr w1
           else case fixups (fst item) (fsys w1) of
                  Inl (e, fs1) \<Rightarrow> Inl (e, w1\<lparr>fsys := fs1\<rparr>)
                | Inr fs1 \<Rightarrow> Inr (w1\<lparr>fsys := fs1\<rparr>)))"

fun download_loop :: "bool \<Rightarrow> (string \<Rightarrow> http_result) \<Rightarrow> (int \<times> string) list \<Rightarrow> world \<Rightarrow> world outcome" where
  "download_loop unzip net [] w = Inr w"
| "download_loop unzip net (item # items) w =
     (case download_year unzip net item w of
        Inl x \<Rightarrow> Inl x
      | Inr w1 \<Rightarrow> download_loop unzip net items w1)"

text \<open>
  \<^verbatim>\<open>download_data(years, unzip)\<close>: the loop runs over the items of \<open>YEAR_MAP\<close>, in
  its order, whose year is in \<open>years\<close>.
\<close>

definition download_data :: "int list \<Rightarrow> bool \<Rightarrow> (string \<Rightarrow> http_result) \<Rightarrow> world \<Rightarrow> world outcome" where
  "download_data years unzip net w =
     download_loop unzip net (filter (\<lambda>x. fst x \<in> set years) YEAR_MAP)
       (log_record INFO ''Beginning data download'' w)"

section \<open>Cleanup\<close>

text \<open>
  \<^verbatim>\<open>Path.suffix\<close>: the name from its last dot on, when that dot is neither the
  first nor the last character of the name; the empty string otherwise.
\<close>

definition path_suffix :: "string \<Rightarrow> string" where
  "path_suffix name =
     (if CHR ''.'' \<in> set name
      then (let k = length (takeWhile (\<lambda>c. c \<noteq> CHR ''.'') (rev name));
                i = length name - 1 - k
            in if 0 < i \<and> 0 < k then drop i name else [])
      else [])"


text \<open>
  The inner loop of \<^verbatim>\<open>remove_csv\<close>:
  \<^verbatim>\<open>if path.is_file() and path.suffix == ".csv": path.unlink()\<close>.
\<close>

fun unlink_csv :: "path \<Rightarrow> string list \<Rightarrow> filesys \<Rightarrow> filesys outcome" where
  "unlink_csv root [] fs = Inr fs"
| "unlink_csv root (file # files) fs =
     (if is_file fs (root @ [file]) \<and> path_suffix file = ''.csv''
      then (case unlink (root @ [file]) fs of
              Inl e \<Rightarrow> Inl (e, fs)
            | Inr fs1 \<Rightarrow> unlink_csv root files fs1)
      else unlink_csv root files fs)"

text \<open>
  The walk of \<^verbatim>\<open>remove_csv\<close> visits every directory below its start. It ends
  because a directory weighs more than all its subdirectories together: with \<open>N\<close>
  entries stored and no path longer than \<open>B\<close>, a path of length \<open>l\<close> weighs
  \<open>(N + 1) ^ (B + 1 - l)\<close>, and a directory has at most \<open>N\<close> subdirectories.
\<close>

definition depth_bound :: "filesys \<Rightarrow> nat" where
  "depth_bound fs = sum_list (map (\<lambda>(q, n). length q) fs)"

definition weight :: "filesys \<Rightarrow> path \<Rightarrow> nat" where
  "weight fs p = (length fs + 1) ^ (depth_bound fs + 1 - length p)"

definition walk_measure :: "path list \<Rightarrow> filesys \<Rightarrow> nat" where
  "walk_measure stack fs = sum_list (map (weight fs) stack)"

lemma depth_bound_delete_le: "depth_bound (AList.delete k fs) \<le> depth_bound fs"
  by (induction fs) (auto simp: depth_bound_def)

lemma unlink_csv_Inr:
  "unlink_csv root files fs = Inr fs' \<Longrightarrow> length fs' \<le> length fs \<and> depth_bound fs' \<le> depth_bound fs"
proof (induction files arbitrary: fs)
  case Nil
  then show ?case by simp
next
  case (Cons f files)
  show ?case
  proof (cases "is_file fs (root @ [f]) \<and> path_suffix f = ''.csv''")
    case True
    with Cons.prems obtain fs1 where u: "unlink (root @ [f]) fs = Inr fs1"
      and r: "unlink_csv root files fs1 = Inr fs'"
      by (auto split: sum.splits)
    from u have "fs1 = AList.delete (root @ [f]) fs"
      by (auto simp: unlink_def split: option.splits node.splits)
    with Cons.IH[OF r] length_delete_le[of "root @ [f]" fs] depth_bound_delete_le[of "root @ [f]" fs]
    show ?thesis by auto
  next
    case False
    with Cons show ?thesis by auto
  qed
qed

lemma weight_mono:
  assumes "length fs' \<le> length fs" and "depth_bound fs' \<le> depth_bound fs"
  shows "weight fs' p \<le> weight fs p"
proof -
  have "(length fs' + 1) ^ (depth_bound fs' + 1 - length p)
      \<le> (length fs + 1) ^ (depth_bound fs' + 1 - length p)"
    using assms(1) by (intro power_mono) auto
  also have "\<dots> \<le> (length fs + 1) ^ (depth_bound fs + 1 - length p)"
    using assms(2) by (intro power_increasing) auto
  finally show ?thesis by (simp add: weight_def)
qed

lemma walk_measure_mono:
  assumes "length fs' \<le> length fs" and "depth_bound fs' \<le> depth_bound fs"
  shows "walk_measure stack fs' \<le> walk_measure stack fs"
  unfolding walk_measure_def
  by (intro sum_list_mono weight_mono assms)

lemma weight_pos: "0 < weight fs p"
  by (simp add: weight_def)

lemma length_listdir_le: "length (listdir fs p) \<le> length fs"
proof -
  have "length (listdir fs p) \<le> length (filter (\<lambda>(q, n). q \<noteq> [] \<and> butlast q = p) fs)"
    unfolding listdir_def using length_remdups_leq[of "map (\<lambda>(q, n). last q) (filter (\<lambda>(q, n). q \<noteq> [] \<and> butlast q = p) fs)"]
    by simp
  also have "\<dots> \<le> length fs" by simp
  finally show ?thesis .
qed

lemma key_length_le_depth_bound: "(q, n) \<in> set fs \<Longrightarrow> length q \<le> depth_bound fs"
  unfolding depth_bound_def
  by (induction fs) auto

lemma listdir_depth:
  assumes "d \<in> set (listdir fs p)"
  shows "length p < depth_bound fs"
proof -
  from assms obtain q n where qn: "(q, n) \<in> set fs" "q \<noteq> []" "butlast q = p"
    by (auto simp: listdir_def)
  then have "length q = Suc (length p)" by (cases q rule: rev_cases) auto
  with key_length_le_depth_bound[OF qn(1)] show ?thesis by simp
qed

lemma children_weight:
  assumes "scandir fs root = Some (dirs, files)"
  shows "sum_list (map (weight fs) (map (\<lambda>d. root @ [d]) dirs)) < weight fs root"
proof (cases "dirs = []")
  case True
  then show ?thesis by (simp add: weight_pos)
next
  case False
  from assms have dirs: "dirs = filter (\<lambda>name. is_dir fs (root @ [name])) (listdir fs root)"
    by (auto simp: scandir_def split: if_splits)
  from False obtain d where "d \<in> set dirs" by (cases dirs) auto
  with dirs have "d \<in> set (listdir fs root)" by simp
  then have lt: "length root < depth_bound fs" by (rule listdir_depth)
  define X where "X = (length fs + 1) ^ (depth_bound fs - length root)"
  have X: "0 < X" by (simp add: X_def)
  have each: "weight fs (root @ [d']) = X" for d'
    by (simp add: weight_def X_def)
  have "depth_bound fs + 1 - length root = Suc (depth_bound fs - length root)"
    using lt by simp
  then have top: "weight fs root = (length fs + 1) * X"
    by (simp add: weight_def X_def)
  have "length dirs \<le> length fs"
    unfolding dirs by (rule le_trans[OF length_filter_le length_listdir_le])
  then have "length dirs * X \<le> length fs * X"
    by (rule mult_le_mono1)
  moreover have "length fs * X < (length fs + 1) * X"
    using X by simp
  ultimately have "length dirs * X < (length fs + 1) * X"
    by (rule le_less_trans)
  moreover have "sum_list (map (weight fs) (map (\<lambda>d. root @ [d]) dirs)) = length dirs * X"
    by (simp add: o_def each sum_list_triv)
  ultimately show ?thesis using top by simp
qed

lemma walk_measure_push:
  assumes "scandir fs root = Some (dirs, files)"
    and "length fs' \<le> length fs" and "depth_bound fs' \<le> depth_bound fs"
  shows "walk_measure (map (\<lambda>d. root @ [d]) dirs @ stack) fs' < walk_measure (root # stack) fs"
proof -
  have "walk_measure (map (\<lambda>d. root @ [d]) dirs @ stack) fs'
      \<le> walk_measure (map (\<lambda>d. root @ [d]) dirs @ stack) fs"
    by (rule walk_measure_mono[OF assms(2,3)])
  also have "\<dots> = sum_list (map (weight fs) (map (\<lambda>d. root @ [d]) dirs)) + walk_measure stack fs"
    by (simp add: walk_measure_def)
  also have "\<dots> < weight fs root + walk_measure stack fs"
    using children_weight[OF assms(1)] by simp
  also have "\<dots> = walk_measure (root # stack) fs"
    by (simp add: walk_measure_def)
  finally show ?thesis .
qed

text \<open>
  \<^verbatim>\<open>for root, _, files in os.walk("data"): <unlink the csv files>\<close>, with the
  stack of \<^verbatim>\<open>os.walk\<close> as in \<open>flatten_walk\<close>.
\<close>

function rm_walk :: "path list \<Rightarrow> filesys \<Rightarrow> filesys outcome" where
  "rm_walk [] fs = Inr fs"
| "rm_walk (root # stack) fs =
     (case scandir fs root of
        None \<Rightarrow> rm_walk stack fs
      | Some (dirs, files) \<Rightarrow>
          (case unlink_csv root files fs of
             Inl x \<Rightarrow> Inl x
           | Inr fs1 \<Rightarrow> rm_walk (map (\<lambda>d. root @ [d]) dirs @ stack) fs1))"
  by pat_completeness auto
termination
proof (relation "measure (\<lambda>(stack, fs). walk_measure stack fs)")
  show "wf (measure (\<lambda>(stack, fs). walk_measure stack fs))" by simp
next
  fix root :: path and stack :: "path list" and fs :: filesys
  show "((stack, fs), root # stack, fs) \<in> measure (\<lambda>(stack, fs). walk_measure stack fs)"
    by (simp add: walk_measure_def weight_pos)
next
  fix root :: path and stack :: "path list" and fs fs1 :: filesys
    and x2 :: "string list \<times> string list" and dirs files :: "string list"
  assume "scandir fs root = Some x2" "(dirs, files) = x2" "unlink_csv root files fs = Inr fs1"
  then show "((map (\<lambda>d. root @ [d]) dirs @ stack, fs1), root # stack, fs)
      \<in> measure (\<lambda>(stack, fs). walk_measure stack fs)"
    using walk_measure_push[of fs root dirs files fs1 stack] unlink_csv_Inr[of root files fs fs1]
    by simp
qed

definition remove_csv :: "world \<Rightarrow> world outcome" where
  "remove_csv w =
     (let w1 = log_record INFO ''Removing csv files'' w in
      case rm_walk [[''data'']] (fsys w1) of
        Inl (e, fs1) \<Rightarrow> Inl (e, w1\<lparr>fsys := fs1\<rparr>)
      | Inr fs1 \<Rightarrow> Inr (w1\<lparr>fsys := fs1\<rparr>))"

section \<open>Export\<close>

text \<open>
  \<^verbatim>\<open>SELECT * FROM tbs_trips ORDER BY "Trip Id"\<close>: ascending, and DuckDB's default
  puts the rows whose key is NULL last.
\<close>

definition order_by_trip_id :: "trip list \<Rightarrow> trip list" where
  "order_by_trip_id tbl =
     sort_key (\<lambda>r. the (Trip_Id r)) (filter (\<lambda>r. Trip_Id r \<noteq> None) tbl)
     @ filter (\<lambda>r. Trip_Id r = None) tbl"

text \<open>
  \<^verbatim>\<open>COPY (...) TO "./data/tbs.parquet"\<close> writes one file, replacing a file of that
  path; DuckDB raises an IOException when the directory is missing or the path is a
  directory. The codec (zstd, level 3) changes the bytes of the file, not the rows they
  hold.
\<close>

definition copy_to :: "path \<Rightarrow> content \<Rightarrow> filesys \<Rightarrow> error + filesys" where
  "copy_to p bytes fs =
     (if \<not> is_dir fs (butlast p) then Inl IOException
      else case lookup fs p of
             Some Dir \<Rightarrow> Inl IOException
           | _ \<Rightarrow> Inr (AList.update p (File bytes) fs))"

definition export_as_parquet :: "world \<Rightarrow> world outcome" where
  "export_as_parquet w =
     (let w1 = log_record INFO ''Saving to parquet'' w in
      case tbs_trips (conn w1) of
        None \<Rightarrow> Inl (CatalogException, w1)
      | Some tbl \<Rightarrow>
          (case copy_to [''data'', ''tbs.parquet''] (Parquet (order_by_trip_id tbl)) (fsys w1) of
             Inl e \<Rightarrow> Inl (e, w1)
           | Inr fs1 \<Rightarrow> Inr (w1\<lparr>fsys := fs1\<rparr>)))"


text \<open>
  \<open>below fs p q\<close>: the path \<open>q\<close> lies below the directory \<open>p\<close>, that is, \<open>p\<close> is a
  proper prefix of \<open>q\<close> and every path from \<open>p\<close> down to the parent of \<open>q\<close> is a
  directory. These are the paths that resolving a path name can reach below \<open>p\<close>.
\<close>

definition below :: "filesys \<Rightarrow> path \<Rightarrow> path \<Rightarrow> bool" where
  "below fs p q = (strict_prefix p q \<and> list_all (\<lambda>r. prefix p r \<longrightarrow> is_dir fs r) (butlast (prefixes q)))"

text \<open>A file that \<^verbatim>\<open>remove_csv\<close> unlinks when it meets it.\<close>

definition csv_file :: "filesys \<Rightarrow> path \<Rightarrow> bool" where
  "csv_file fs q = (is_file fs q \<and> path_suffix (last q) = ''.csv'')"


text \<open>What a GET must give for the loop body to get past \<^verbatim>\<open>ZipFile(...)\<close>.\<close>

definition fetch_error :: "http_result \<Rightarrow> error option" where
  "fetch_error r =
     (case r of
        Unreachable \<Rightarrow> Some ConnectionError
      | Response status body \<Rightarrow> (case body of Zip members \<Rightarrow> None | _ \<Rightarrow> Some BadZipFile))"

text \<open>Two runs of \<^verbatim>\<open>load_data\<close> on the same input, the second only when the first returned.\<close>

definition load_twice :: "trip list \<Rightarrow> world \<Rightarrow> world outcome" where
  "load_twice new_data w =
     (case load_data new_data w of
        Inl x \<Rightarrow> Inl x
      | Inr w1 \<Rightarrow> load_data new_data w1)"

section \<open>Example inputs\<close>

text \<open>
  A world before the first run (nothing on disk, an empty catalog), and a trip row with
  a given identifier and duration.
\<close>

definition fresh_world :: world where
  "fresh_world = \<lparr>fsys = [], conn = \<lparr>types = [], tbs_trips = None\<rparr>, LOGGER = [], requests = []\<rparr>"

definition sample_trip :: "int option \<Rightarrow> int \<Rightarrow> trip" where
  "sample_trip k duration =
     \<lparr>Trip_Id = k, Trip_Duration = Some duration, Start_Station_Id = Some 7000,
      Start_Time = Some 0, Start_Station_Name = Some ''Union Station'',
      End_Station_Id = Some 7001, End_Time = Some 600000000,
      End_Station_Name = Some ''Queens Park'', Bike_Id = Some 42,
      User_Type = Some Casual_Member, Model = Some ICONIC\<rparr>"

text \<open>
  A world after a load: \<^verbatim>\<open>data/\<close> holds an earlier export, the table three rows.
\<close>

definition loaded_world :: world where
  "loaded_world =
     \<lparr>fsys = [([''data''], Dir), ([''data'', ''tbs.parquet''], File (Raw ''an earlier export''))],
      conn = \<lparr>types = [(''bike'', [''EFIT G5'', ''ICONIC'', ''EFIT'']), (''user'', [''Casual Member'', ''Annual Member''])],
              tbs_trips = Some [sample_trip (Some 9) 10, sample_trip None 20, sample_trip (Some 7) 30]\<rparr>,
      LOGGER = [], requests = []\<rparr>"

text \<open>
  Networks: one that serves a 2022 archive holding one CSV file and the nested archive,
  one that answers every GET with status 404 and a zip body, and one that serves 2021
  and is unreachable for every other year.
\<close>

definition nested_2022_net :: "string \<Rightarrow> http_result" where
  "nested_2022_net url =
     (if url = download_url 2022 ''db10a7b1-2702-481c-b7f0-0c67070104bb''
      then Response 200 (Zip
        [([''bikeshare-ridership-2022'', ''Bike share ridership 2022-01.csv''], Some (Raw ''january'')),
         ([''bikeshare-ridership-2022'', ''Bike share ridership 2022-11.zip''],
            Some (Zip [([''Bike share ridership 2022-11.csv''], Some (Raw ''november''))]))])
      else Unreachable)"

definition not_found_net :: "string \<Rightarrow> http_result" where
  "not_found_net url = Response 404 (Zip [([''error.txt''], Some (Raw ''Not Found''))])"

definition offline_2022_net :: "string \<Rightarrow> http_result" where
  "offline_2022_net url =
     (if url = download_url 2021 ''ddc039f6-07fa-47a3-a707-0121ade3b307''
      then Response 200 (Zip [([''Bike share ridership 2021-01.csv''], Some (Raw ''january''))])
      else Unreachable)"

text \<open>
  A working directory with CSV files at two depths, other files beside them, and a CSV
  file outside \<^verbatim>\<open>data/\<close>.
\<close>

definition cleanup_world :: world where
  "cleanup_world =
     \<lparr>fsys = [([''data''], Dir),
              ([''data'', ''Bike share ridership 2021-01.csv''], File (Raw ''january'')),
              ([''data'', ''tbs.db''], File (Raw ''database'')),
              ([''data'', ''archive''], Dir),
              ([''data'', ''archive'', ''old.csv''], File (Raw ''old'')),
              ([''data'', ''archive'', ''readme.txt''], File (Raw ''notes'')),
              ([''backup.csv''], File (Raw ''outside the working directory''))],
      conn = \<lparr>types = [], tbs_trips = None\<rparr>, LOGGER = [], requests = []\<rparr>"

text \<open>
  The file system after the top-level extraction of the 2022 archive served by
  \<open>nested_2022_net\<close>; a network whose 2022 archive holds a nested archive with an
  empty member of the nested archive's own name; and one whose 2023 archive holds a
  subdirectory in the year's folder.
\<close>

definition unpacked_2022 :: filesys where
  "unpacked_2022 =
     [([''data''], Dir),
      ([''data'', ''bikeshare-ridership-2022''], Dir),
      ([''data'', ''bikeshare-ridership-2022'', ''Bike share ridership 2022-01.csv''], File (Raw ''january'')),
      ([''data'', ''bikeshare-ridership-2022'', ''Bike share ridership 2022-11.zip''],
         File (Zip [([''Bike share ridership 2022-11.csv''], Some (Raw ''november''))]))]"


definition nested_dir_2023_net :: "string \<Rightarrow> http_result" where
  "nested_dir_2023_net url =
     Response 200 (Zip
       [([''bikeshare-ridership-2023'', ''Q1'', ''Bike share ridership 2023-01.csv''], Some (Raw ''january''))])"

section \<open>Properties of load\<close>

text \<open>
  From a catalog in which the column types can be resolved, \<^verbatim>\<open>load_data\<close> returns
  normally; the table then holds its former rows followed by the input rows the filter
  let through.
\<close>

lemma load_data_Inr:
  assumes "catalog_ready (conn w)"
  shows "\<exists>w'. load_data nd w = Inr w'
     \<and> tbs_trips (conn w') = Some (rows w @ filter (\<lambda>r. \<not> exists_trip (rows w) r) nd)
     \<and> map_of (types (conn w')) ''user'' \<noteq> None
     \<and> map_of (types (conn w')) ''bike'' \<noteq> None
     \<and> fsys w' = fsys w \<and> requests w' = requests w
     \<and> last (LOGGER w') = (INFO, ''Inserted '' @ str_nat (length (filter (\<lambda>r. \<not> exists_trip (rows w) r) nd)) @ '' rows'')"
  using assms
  by (auto simp: load_data_def create_types_def create_type_def create_table_def insert_new_def
      log_record_def rows_def catalog_ready_def Let_def split: option.splits)

lemma sql_eq_True: "sql_eq a b = Some True \<longleftrightarrow> (\<exists>x. a = Some x \<and> b = Some x)"
  by (cases a; cases b) (auto simp: sql_eq_def)

lemma exists_trip_iff:
  "exists_trip tbl r \<longleftrightarrow> (\<exists>k. Trip_Id r = Some k \<and> Some k \<in> set (map Trip_Id tbl))"
  unfolding exists_trip_def list_ex_iff sql_eq_True by (auto simp: image_iff) (metis+)

lemma exists_trip_null: "Trip_Id r = None \<Longrightarrow> \<not> exists_trip tbl r"
  by (simp add: exists_trip_iff)

lemma count_list_filter: "count_list (filter P xs) x = (if P x then count_list xs x else 0)"
  by (induction xs) auto

lemma load_data_rows:
  assumes "catalog_ready (conn w)"
  obtains w' where "load_data nd w = Inr w'"
    and "rows w' = rows w @ filter (\<lambda>r. \<not> exists_trip (rows w) r) nd"
    and "catalog_ready (conn w')"
    and "last (LOGGER w') = (INFO, ''Inserted '' @ str_nat (length (filter (\<lambda>r. \<not> exists_trip (rows w) r) nd)) @ '' rows'')"
proof -
  from load_data_Inr[OF assms, of nd] obtain w' where w': "load_data nd w = Inr w'"
    "tbs_trips (conn w') = Some (rows w @ filter (\<lambda>r. \<not> exists_trip (rows w) r) nd)"
    "map_of (types (conn w')) ''bike'' \<noteq> None"
    "last (LOGGER w') = (INFO, ''Inserted '' @ str_nat (length (filter (\<lambda>r. \<not> exists_trip (rows w) r) nd)) @ '' rows'')"
    by blast
  show ?thesis
    by (rule that[OF w'(1) _ _ w'(4)]) (use w'(2,3) in \<open>simp_all add: rows_def catalog_ready_def\<close>)
qed

text \<open>
  Claim C10. A row of the input whose trip identifier is NULL is never excluded by the
  NOT EXISTS filter, whatever the table holds: the comparison with NULL is not true. So
  every run of \<^verbatim>\<open>load_data\<close> whose input has the row inserts it again, once per
  occurrence in the input, and a second run on the same input adds the same number of
  copies once more.
\<close>

theorem null_trip_id_inserted_on_every_load:
  assumes ready: "catalog_ready (conn w)"
    and r: "r \<in> set new_data" "Trip_Id r = None"
  shows "\<not> exists_trip (rows w) r \<and>
    (\<exists>w1 w2. load_data new_data w = Inr w1 \<and> load_data new_data w1 = Inr w2
       \<and> count_list (rows w1) r = count_list (rows w) r + count_list new_data r
       \<and> count_list (rows w2) r = count_list (rows w1) r + count_list new_data r
       \<and> 0 < count_list new_data r)"
proof -
  have nex: "\<not> exists_trip tbl r" for tbl
    using r(2) by (rule exists_trip_null)
  from ready obtain w1 where w1: "load_data new_data w = Inr w1"
    "rows w1 = rows w @ filter (\<lambda>r. \<not> exists_trip (rows w) r) new_data"
    "catalog_ready (conn w1)"
    by (rule load_data_rows)
  from w1(3) obtain w2 where w2: "load_data new_data w1 = Inr w2"
    "rows w2 = rows w1 @ filter (\<lambda>r. \<not> exists_trip (rows w1) r) new_data"
    by (rule load_data_rows)
  have c1: "count_list (rows w1) r = count_list (rows w) r + count_list new_data r"
    by (simp add: w1(2) count_list_filter nex)
  have c2: "count_list (rows w2) r = count_list (rows w1) r + count_list new_data r"
    by (simp add: w2(2) count_list_filter nex)
  have "0 < count_list new_data r"
    using r(1) by (auto simp: count_list_0_iff intro: gr0I)
  with nex w1(1) w2(1) c1 c2 show ?thesis by blast
qed

theorem null_trip_id_inserted_on_every_load_witness:
  "catalog_ready (conn fresh_world) \<and> sample_trip None 10 \<in> set [sample_trip None 10]
   \<and> Trip_Id (sample_trip None 10) = None
   \<and> rows (projr (load_data [sample_trip None 10] fresh_world)) = [sample_trip None 10]
   \<and> rows (projr (load_twice [sample_trip None 10] fresh_world)) = [sample_trip None 10, sample_trip None 10]"
proof -
  have h1: "catalog_ready (conn fresh_world)"
    by (simp add: catalog_ready_def fresh_world_def)
  have h2: "sample_trip None 10 \<in> set [sample_trip None 10]" by simp
  have h3: "Trip_Id (sample_trip None 10) = None" by (simp add: sample_trip_def)
  note inst = null_trip_id_inserted_on_every_load[OF h1 h2 h3]
  have e1: "load_data [sample_trip None 10] fresh_world = Inr
      \<lparr>fsys = [], conn = \<lparr>types = [(''bike'', [''EFIT G5'', ''ICONIC'', ''EFIT'']), (''user'', [''Casual Member'', ''Annual Member''])],
         tbs_trips = Some [sample_trip None 10]\<rparr>,
       LOGGER = [(INFO, ''Inserting new data''), (INFO, ''Inserted 1 rows'')], requests = []\<rparr>"
    by (simp add: load_data_def create_types_def create_type_def create_table_def insert_new_def
        log_record_def fresh_world_def exists_trip_def str_nat.simps)
  have e2: "load_twice [sample_trip None 10] fresh_world = Inr
      \<lparr>fsys = [], conn = \<lparr>types = [(''bike'', [''EFIT G5'', ''ICONIC'', ''EFIT'']), (''user'', [''Casual Member'', ''Annual Member''])],
         tbs_trips = Some [sample_trip None 10, sample_trip None 10]\<rparr>,
       LOGGER = [(INFO, ''Inserting new data''), (INFO, ''Inserted 1 rows''),
         (INFO, ''`User Type` enum is already defined''),
         (INFO, ''Inserting new data''), (INFO, ''Inserted 1 rows'')], requests = []\<rparr>"
    unfolding load_twice_def e1
    by (simp add: load_data_def create_types_def create_type_def create_table_def insert_new_def
        log_record_def exists_trip_def str_nat.simps sql_eq_def sample_trip_def)
  show ?thesis
    using inst h1 h3 by (simp add: e1 e2 rows_def)
qed

text \<open>
  Claim C1 says that when two input files hold rows with the same trip identifier,
  exactly one row with that identifier is in the table after load. It fails when the
  identifier is not in the table before the load: the NOT EXISTS subquery reads the
  table as it was before the statement, so both rows pass the filter and both are
  inserted.
\<close>

theorem load_same_id_in_two_files_counterexample:
  "load_data ([sample_trip (Some 7) 10] @ [sample_trip (Some 7) 20]) fresh_world = Inr
      \<lparr>fsys = [], conn = \<lparr>types = [(''bike'', [''EFIT G5'', ''ICONIC'', ''EFIT'']), (''user'', [''Casual Member'', ''Annual Member''])],
         tbs_trips = Some [sample_trip (Some 7) 10, sample_trip (Some 7) 20]\<rparr>,
       LOGGER = [(INFO, ''Inserting new data''), (INFO, ''Inserted 2 rows'')], requests = []\<rparr>
   \<and> sample_trip (Some 7) 10 \<noteq> sample_trip (Some 7) 20"
  by (simp add: load_data_def create_types_def create_type_def create_table_def insert_new_def
      log_record_def fresh_world_def exists_trip_def str_nat.simps sample_trip_def)

text \<open>
  Claim C1, amended. A load excludes an input row only when its trip identifier is in
  the table as it was before the load. For an identifier already in the table, the
  rows of the table with that identifier are after the load exactly what they were
  before (the version loaded earlier survives, no input row with it is inserted). For
  an identifier not yet in the table, every input row with it is inserted, from
  whichever file it comes. The trip identifiers in the table after the load are those
  in the table before together with those of the input files; from an empty table their
  number is the number of distinct identifiers across the input files.
\<close>

theorem load_dedup_against_table:
  assumes ready: "catalog_ready (conn w)"
  shows "\<exists>w'. load_data (file1 @ file2) w = Inr w'
     \<and> (\<forall>k. Some k \<in> set (map Trip_Id (rows w)) \<longrightarrow>
            filter (\<lambda>r. Trip_Id r = Some k) (rows w') = filter (\<lambda>r. Trip_Id r = Some k) (rows w))
     \<and> (\<forall>k. Some k \<notin> set (map Trip_Id (rows w)) \<longrightarrow>
            filter (\<lambda>r. Trip_Id r = Some k) (rows w') = filter (\<lambda>r. Trip_Id r = Some k) (file1 @ file2))
     \<and> set (map Trip_Id (rows w')) = set (map Trip_Id (rows w)) \<union> set (map Trip_Id (file1 @ file2))
     \<and> (rows w = [] \<longrightarrow> card (set (map Trip_Id (rows w'))) = card (set (map Trip_Id (file1 @ file2))))"
proof -
  define nd where "nd = file1 @ file2"
  from ready obtain w' where w': "load_data nd w = Inr w'"
    "rows w' = rows w @ filter (\<lambda>r. \<not> exists_trip (rows w) r) nd"
    by (rule load_data_rows)
  have old: "filter (\<lambda>r. Trip_Id r = Some k) (rows w') = filter (\<lambda>r. Trip_Id r = Some k) (rows w)"
    if "Some k \<in> set (map Trip_Id (rows w))" for k
  proof -
    have "filter (\<lambda>r. Trip_Id r = Some k) (filter (\<lambda>r. \<not> exists_trip (rows w) r) nd) = []"
      using that by (auto simp: filter_empty_conv exists_trip_iff)
    then show ?thesis by (simp add: w'(2))
  qed
  have new: "filter (\<lambda>r. Trip_Id r = Some k) (rows w') = filter (\<lambda>r. Trip_Id r = Some k) nd"
    if "Some k \<notin> set (map Trip_Id (rows w))" for k
  proof -
    have "filter (\<lambda>r. Trip_Id r = Some k) (rows w) = []"
      using that by (force simp: filter_empty_conv image_iff)
    moreover have "\<not> exists_trip (rows w) r" if "Trip_Id r = Some k" for r
      using that \<open>Some k \<notin> set (map Trip_Id (rows w))\<close> by (simp add: exists_trip_iff)
    then have "filter (\<lambda>r. Trip_Id r = Some k) (filter (\<lambda>r. \<not> exists_trip (rows w) r) nd)
        = filter (\<lambda>r. Trip_Id r = Some k) nd"
      by (induction nd) auto
    ultimately show ?thesis by (simp add: w'(2))
  qed
  have ids: "set (map Trip_Id (rows w')) = set (map Trip_Id (rows w)) \<union> set (map Trip_Id nd)"
  proof (intro set_eqI iffI)
    fix x assume "x \<in> set (map Trip_Id (rows w'))"
    then show "x \<in> set (map Trip_Id (rows w)) \<union> set (map Trip_Id nd)"
      by (auto simp: w'(2))
  next
    fix x assume x: "x \<in> set (map Trip_Id (rows w)) \<union> set (map Trip_Id nd)"
    show "x \<in> set (map Trip_Id (rows w'))"
    proof (cases "x \<in> set (map Trip_Id (rows w))")
      case True
      then show ?thesis by (auto simp: w'(2))
    next
      case False
      with x obtain r where r: "r \<in> set nd" "Trip_Id r = x" by auto
      with False have "\<not> exists_trip (rows w) r" by (auto simp: exists_trip_iff)
      with r show ?thesis by (auto simp: w'(2) image_iff)
    qed
  qed
  from w'(1) old new ids show ?thesis
    unfolding nd_def by (intro exI[of _ w']) simp
qed

theorem load_dedup_against_table_witness:
  "catalog_ready (conn fresh_world)
   \<and> rows (projr (load_data ([sample_trip (Some 7) 10] @ [sample_trip (Some 7) 20]) fresh_world))
       = [sample_trip (Some 7) 10, sample_trip (Some 7) 20]
   \<and> card (set (map Trip_Id (rows (projr (load_data ([sample_trip (Some 7) 10] @ [sample_trip (Some 7) 20]) fresh_world))))) = 1"
proof -
  have h1: "catalog_ready (conn fresh_world)"
    by (simp add: catalog_ready_def fresh_world_def)
  have empty: "rows fresh_world = []"
    by (simp add: rows_def fresh_world_def)
  from load_dedup_against_table[OF h1, of "[sample_trip (Some 7) 10]" "[sample_trip (Some 7) 20]"]
  obtain w' where w': "load_data ([sample_trip (Some 7) 10] @ [sample_trip (Some 7) 20]) fresh_world = Inr w'"
    "\<forall>k. Some k \<notin> set (map Trip_Id (rows fresh_world)) \<longrightarrow>
            filter (\<lambda>r. Trip_Id r = Some k) (rows w')
            = filter (\<lambda>r. Trip_Id r = Some k) ([sample_trip (Some 7) 10] @ [sample_trip (Some 7) 20])"
    "set (map Trip_Id (rows w')) = set (map Trip_Id (rows fresh_world))
       \<union> set (map Trip_Id ([sample_trip (Some 7) 10] @ [sample_trip (Some 7) 20]))"
    by blast
  from w'(3) have ids: "set (map Trip_Id (rows w')) = {Some 7}"
    by (simp add: empty sample_trip_def)
  then have "\<forall>r\<in>set (rows w'). Trip_Id r = Some 7" by auto
  then have "filter (\<lambda>r. Trip_Id r = Some 7) (rows w') = rows w'"
    by (simp add: filter_id_conv)
  with w'(2) have "rows w' = [sample_trip (Some 7) 10, sample_trip (Some 7) 20]"
    by (simp add: empty sample_trip_def)
  with w'(1) ids h1 show ?thesis by simp
qed

text \<open>
  Claim C2 says that a second run of load on the same input leaves the row count as
  it was and inserts nothing. It fails on an input row whose trip identifier is NULL
  (claim C10): from an empty database the first run inserts the row and the second
  inserts it again, reporting one inserted row.
\<close>

theorem load_twice_null_id_counterexample:
  "load_data [sample_trip None 10] fresh_world = Inr
      \<lparr>fsys = [], conn = \<lparr>types = [(''bike'', [''EFIT G5'', ''ICONIC'', ''EFIT'']), (''user'', [''Casual Member'', ''Annual Member''])],
         tbs_trips = Some [sample_trip None 10]\<rparr>,
       LOGGER = [(INFO, ''Inserting new data''), (INFO, ''Inserted 1 rows'')], requests = []\<rparr>
   \<and> load_twice [sample_trip None 10] fresh_world = Inr
      \<lparr>fsys = [], conn = \<lparr>types = [(''bike'', [''EFIT G5'', ''ICONIC'', ''EFIT'']), (''user'', [''Casual Member'', ''Annual Member''])],
         tbs_trips = Some [sample_trip None 10, sample_trip None 10]\<rparr>,
       LOGGER = [(INFO, ''Inserting new data''), (INFO, ''Inserted 1 rows''),
         (INFO, ''`User Type` enum is already defined''),
         (INFO, ''Inserting new data''), (INFO, ''Inserted 1 rows'')], requests = []\<rparr>"
proof -
  have e1: "load_data [sample_trip None 10] fresh_world = Inr
      \<lparr>fsys = [], conn = \<lparr>types = [(''bike'', [''EFIT G5'', ''ICONIC'', ''EFIT'']), (''user'', [''Casual Member'', ''Annual Member''])],
         tbs_trips = Some [sample_trip None 10]\<rparr>,
       LOGGER = [(INFO, ''Inserting new data''), (INFO, ''Inserted 1 rows'')], requests = []\<rparr>"
    by (simp add: load_data_def create_types_def create_type_def create_table_def insert_new_def
        log_record_def fresh_world_def exists_trip_def str_nat.simps)
  show ?thesis
    unfolding load_twice_def e1
    by (simp add: load_data_def create_types_def create_type_def create_table_def insert_new_def
        log_record_def exists_trip_def str_nat.simps sql_eq_def sample_trip_def)
qed

text \<open>
  Once the filtered input has been appended to the table, every input row with an
  identifier finds that identifier in the table.
\<close>

lemma second_load_selects_nothing:
  assumes "\<forall>r\<in>set nd. Trip_Id r \<noteq> None"
  shows "filter (\<lambda>r. \<not> exists_trip (tbl @ filter (\<lambda>r. \<not> exists_trip tbl r) nd) r) nd = []"
proof -
  have "exists_trip (tbl @ filter (\<lambda>r. \<not> exists_trip tbl r) nd) r" if r: "r \<in> set nd" for r
  proof -
    from assms r obtain k where k: "Trip_Id r = Some k" by auto
    show ?thesis
    proof (cases "exists_trip tbl r")
      case True
      then show ?thesis by (auto simp: exists_trip_iff)
    next
      case False
      with r have "r \<in> set (filter (\<lambda>r. \<not> exists_trip tbl r) nd)" by simp
      with k show ?thesis unfolding exists_trip_iff by force
    qed
  qed
  then show ?thesis by (simp add: filter_empty_conv)
qed

text \<open>
  Claim C2, amended. For every starting table and every input in which no row has a
  NULL trip identifier, the second of two runs of \<^verbatim>\<open>load_data\<close> on the same
  input returns normally, leaves the table exactly as the first run left it (so the
  row count is the same) and logs that it inserted 0 rows.
\<close>

theorem load_twice_idempotent_without_null_ids:
  assumes ready: "catalog_ready (conn w)"
    and ids: "\<forall>r\<in>set new_data. Trip_Id r \<noteq> None"
  shows "\<exists>w1 w2. load_data new_data w = Inr w1 \<and> load_twice new_data w = Inr w2
       \<and> rows w2 = rows w1 \<and> length (rows w2) = length (rows w1)
       \<and> last (LOGGER w2) = (INFO, ''Inserted 0 rows'')"
proof -
  from ready obtain w1 where w1: "load_data new_data w = Inr w1"
    "rows w1 = rows w @ filter (\<lambda>r. \<not> exists_trip (rows w) r) new_data"
    "catalog_ready (conn w1)"
    by (rule load_data_rows)
  from w1(3) obtain w2 where w2: "load_data new_data w1 = Inr w2"
    "rows w2 = rows w1 @ filter (\<lambda>r. \<not> exists_trip (rows w1) r) new_data"
    "last (LOGGER w2) = (INFO, ''Inserted '' @ str_nat (length (filter (\<lambda>r. \<not> exists_trip (rows w1) r) new_data)) @ '' rows'')"
    by (rule load_data_rows)
  have none: "filter (\<lambda>r. \<not> exists_trip (rows w1) r) new_data = []"
    unfolding w1(2) using ids by (rule second_load_selects_nothing)
  have "load_twice new_data w = Inr w2"
    by (simp add: load_twice_def w1(1) w2(1))
  moreover have "rows w2 = rows w1"
    by (simp add: w2(2) none)
  moreover have "last (LOGGER w2) = (INFO, ''Inserted 0 rows'')"
    by (simp add: w2(3) none str_nat.simps)
  ultimately show ?thesis using w1(1) by auto
qed

theorem load_twice_idempotent_without_null_ids_witness:
  "catalog_ready (conn fresh_world)
   \<and> rows (projr (load_twice [sample_trip (Some 7) 10, sample_trip (Some 8) 20] fresh_world))
       = [sample_trip (Some 7) 10, sample_trip (Some 8) 20]
   \<and> rows (projr (load_data [sample_trip (Some 7) 10, sample_trip (Some 8) 20] fresh_world))
       = [sample_trip (Some 7) 10, sample_trip (Some 8) 20]"
proof -
  have h1: "catalog_ready (conn fresh_world)"
    by (simp add: catalog_ready_def fresh_world_def)
  have h2: "\<forall>r\<in>set [sample_trip (Some 7) 10, sample_trip (Some 8) 20]. Trip_Id r \<noteq> None"
    by (simp add: sample_trip_def)
  from load_twice_idempotent_without_null_ids[OF h1 h2]
  obtain w1 w2 where w: "load_data [sample_trip (Some 7) 10, sample_trip (Some 8) 20] fresh_world = Inr w1"
    "load_twice [sample_trip (Some 7) 10, sample_trip (Some 8) 20] fresh_world = Inr w2"
    "rows w2 = rows w1"
    by blast
  have e1: "load_data [sample_trip (Some 7) 10, sample_trip (Some 8) 20] fresh_world = Inr
      \<lparr>fsys = [], conn = \<lparr>types = [(''bike'', [''EFIT G5'', ''ICONIC'', ''EFIT'']), (''user'', [''Casual Member'', ''Annual Member''])],
         tbs_trips = Some [sample_trip (Some 7) 10, sample_trip (Some 8) 20]\<rparr>,
       LOGGER = [(INFO, ''Inserting new data''), (INFO, ''Inserted 2 rows'')], requests = []\<rparr>"
    by (simp add: load_data_def create_types_def create_type_def create_table_def insert_new_def
        log_record_def fresh_world_def exists_trip_def str_nat.simps)
  from w(1) e1 have "rows w1 = [sample_trip (Some 7) 10, sample_trip (Some 8) 20]"
    by (auto simp: rows_def)
  with w h1 h2 show ?thesis by simp
qed

text \<open>
  Claim C4. When both enum types exist, the first CREATE TYPE raises a
  CatalogException; \<^verbatim>\<open>load_data\<close> catches it, logs one record at INFO level,
  leaves the catalog's types as they were, and goes on to create the table (if absent)
  and to insert: it returns normally with the filtered input appended to the table.
\<close>

theorem load_continues_when_types_exist:
  assumes user: "map_of (types (conn w)) ''user'' = Some user_labels"
    and bike: "map_of (types (conn w)) ''bike'' = Some bike_labels"
  shows "create_type ''user'' [''Casual Member'', ''Annual Member''] (conn w) = Inl CatalogException
     \<and> (\<exists>w'. load_data new_data w = Inr w'
          \<and> types (conn w') = types (conn w)
          \<and> LOGGER w' = LOGGER w @
               [(INFO, ''`User Type` enum is already defined''),
                (INFO, ''Inserting new data''),
                (INFO, ''Inserted '' @ str_nat (length (filter (\<lambda>r. \<not> exists_trip (rows w) r) new_data)) @ '' rows'')]
          \<and> tbs_trips (conn w') = Some (rows w @ filter (\<lambda>r. \<not> exists_trip (rows w) r) new_data))"
proof -
  have raised: "create_type ''user'' [''Casual Member'', ''Annual Member''] (conn w) = Inl CatalogException"
    using user by (simp add: create_type_def)
  then have caught: "create_types w =
      Inr (log_record INFO ''`User Type` enum is already defined'' w)"
    by (simp add: create_types_def)
  have table: "\<exists>d. create_table (conn w) = Inr d \<and> types d = types (conn w)
      \<and> tbs_trips d = Some (rows w)"
    using user bike by (auto simp: create_table_def rows_def split: option.splits)
  then obtain d where d: "create_table (conn w) = Inr d" "types d = types (conn w)"
    "tbs_trips d = Some (rows w)" by blast
  show ?thesis
    using raised d
    by (simp add: load_data_def caught log_record_def insert_new_def Let_def)
qed

theorem load_continues_when_types_exist_witness:
  "rows (projr (load_twice [sample_trip (Some 7) 10] fresh_world)) = [sample_trip (Some 7) 10]
   \<and> LOGGER (projr (load_twice [sample_trip (Some 7) 10] fresh_world)) =
       [(INFO, ''Inserting new data''), (INFO, ''Inserted 1 rows''),
        (INFO, ''`User Type` enum is already defined''),
        (INFO, ''Inserting new data''), (INFO, ''Inserted 0 rows'')]"
proof -
  define w1 where "w1 =
      \<lparr>fsys = [], conn = \<lparr>types = [(''bike'', [''EFIT G5'', ''ICONIC'', ''EFIT'']), (''user'', [''Casual Member'', ''Annual Member''])],
         tbs_trips = Some [sample_trip (Some 7) 10]\<rparr>,
       LOGGER = [(INFO, ''Inserting new data''), (INFO, ''Inserted 1 rows'')], requests = []\<rparr>"
  have e1: "load_data [sample_trip (Some 7) 10] fresh_world = Inr w1"
    by (simp add: load_data_def create_types_def create_type_def create_table_def insert_new_def
        log_record_def fresh_world_def exists_trip_def str_nat.simps w1_def)
  have h1: "map_of (types (conn w1)) ''user'' = Some [''Casual Member'', ''Annual Member'']"
    by (simp add: w1_def)
  have h2: "map_of (types (conn w1)) ''bike'' = Some [''EFIT G5'', ''ICONIC'', ''EFIT'']"
    by (simp add: w1_def)
  have r1: "rows w1 = [sample_trip (Some 7) 10]" by (simp add: rows_def w1_def)
  have sel: "filter (\<lambda>r. \<not> exists_trip (rows w1) r) [sample_trip (Some 7) 10] = []"
    by (simp add: r1 exists_trip_def sql_eq_def sample_trip_def)
  from load_continues_when_types_exist[OF h1 h2, of "[sample_trip (Some 7) 10]"]
  obtain w' where w': "load_data [sample_trip (Some 7) 10] w1 = Inr w'"
    "LOGGER w' = LOGGER w1 @
               [(INFO, ''`User Type` enum is already defined''),
                (INFO, ''Inserting new data''),
                (INFO, ''Inserted '' @ str_nat (length (filter (\<lambda>r. \<not> exists_trip (rows w1) r) [sample_trip (Some 7) 10])) @ '' rows'')]"
    "tbs_trips (conn w') = Some (rows w1 @ filter (\<lambda>r. \<not> exists_trip (rows w1) r) [sample_trip (Some 7) 10])"
    by blast
  have "load_twice [sample_trip (Some 7) 10] fresh_world = Inr w'"
    by (simp add: load_twice_def e1 w'(1))
  moreover have "rows w' = [sample_trip (Some 7) 10]"
  proof -
    from w'(3)[unfolded sel] have "tbs_trips (conn w') = Some [sample_trip (Some 7) 10]"
      by (simp add: r1)
    then show ?thesis by (simp add: rows_def)
  qed
  moreover have "LOGGER w' = [(INFO, ''Inserting new data''), (INFO, ''Inserted 1 rows''),
        (INFO, ''`User Type` enum is already defined''),
        (INFO, ''Inserting new data''), (INFO, ''Inserted 0 rows'')]"
    using w'(2)[unfolded sel] by (simp add: str_nat.simps w1_def)
  ultimately show ?thesis by simp
qed

section \<open>Properties of export\<close>

lemma lookup_update:
  "p \<noteq> [] \<Longrightarrow> lookup (AList.update p n fs) q = (if q = p then Some n else lookup fs q)"
  by (simp add: lookup_def update_conv')

lemma lookup_delete:
  "p \<noteq> [] \<Longrightarrow> lookup (AList.delete p fs) q = (if q = p then None else lookup fs q)"
  by (simp add: lookup_def delete_conv')

lemma mset_order_by_trip_id: "mset (order_by_trip_id tbl) = mset tbl"
proof -
  have "mset (order_by_trip_id tbl)
      = filter_mset (\<lambda>r. Trip_Id r \<noteq> None) (mset tbl) + filter_mset (\<lambda>r. \<not> Trip_Id r \<noteq> None) (mset tbl)"
    by (simp add: order_by_trip_id_def)
  also have "\<dots> = mset tbl" by (rule multiset_partition[symmetric])
  finally show ?thesis .
qed

lemma length_order_by_trip_id: "length (order_by_trip_id tbl) = length tbl"
  using arg_cong[OF mset_order_by_trip_id, of size tbl] by simp

text \<open>
  Claim C8. When the table exists and \<^verbatim>\<open>data/\<close> is a directory in which
  \<^verbatim>\<open>tbs.parquet\<close> is not itself a directory, \<^verbatim>\<open>export_as_parquet\<close> returns
  normally and \<^verbatim>\<open>data/tbs.parquet\<close> then holds every row of the table: as many rows
  as the table has, the same rows with the same multiplicities, in ascending order of
  trip identifier with the rows without identifier last. Nothing is assumed of what
  the path held before: an earlier export is replaced. The table is not changed.
\<close>

theorem export_writes_all_rows_sorted:
  assumes table: "tbs_trips (conn w) = Some tbl"
    and data: "is_dir (fsys w) [''data'']"
    and target: "\<not> is_dir (fsys w) [''data'', ''tbs.parquet'']"
  shows "\<exists>w' out. export_as_parquet w = Inr w'
     \<and> lookup (fsys w') [''data'', ''tbs.parquet''] = Some (File (Parquet out))
     \<and> length out = length tbl
     \<and> mset out = mset tbl
     \<and> (\<exists>ys zs. out = ys @ zs
           \<and> sorted (map (\<lambda>r. the (Trip_Id r)) ys)
           \<and> (\<forall>r\<in>set ys. Trip_Id r \<noteq> None)
           \<and> (\<forall>r\<in>set zs. Trip_Id r = None))
     \<and> conn w' = conn w"
proof -
  define out where "out = order_by_trip_id tbl"
  define w' where "w' = w\<lparr>LOGGER := LOGGER w @ [(INFO, ''Saving to parquet'')],
      fsys := AList.update [''data'', ''tbs.parquet''] (File (Parquet out)) (fsys w)\<rparr>"
  have copy: "copy_to [''data'', ''tbs.parquet''] (Parquet out) (fsys w)
      = Inr (AList.update [''data'', ''tbs.parquet''] (File (Parquet out)) (fsys w))"
    using data target by (auto simp: copy_to_def is_dir_def split: option.splits node.splits)
  have run: "export_as_parquet w = Inr w'"
    by (simp add: export_as_parquet_def log_record_def table copy out_def[symmetric] w'_def)
  have written: "lookup (fsys w') [''data'', ''tbs.parquet''] = Some (File (Parquet out))"
    by (simp add: w'_def lookup_update)
  have split: "\<exists>ys zs. out = ys @ zs
           \<and> sorted (map (\<lambda>r. the (Trip_Id r)) ys)
           \<and> (\<forall>r\<in>set ys. Trip_Id r \<noteq> None)
           \<and> (\<forall>r\<in>set zs. Trip_Id r = None)"
  proof (intro exI conjI)
    show "out = sort_key (\<lambda>r. the (Trip_Id r)) (filter (\<lambda>r. Trip_Id r \<noteq> None) tbl)
        @ filter (\<lambda>r. Trip_Id r = None) tbl"
      by (simp add: out_def order_by_trip_id_def)
    show "sorted (map (\<lambda>r. the (Trip_Id r)) (sort_key (\<lambda>r. the (Trip_Id r)) (filter (\<lambda>r. Trip_Id r \<noteq> None) tbl)))"
      by (rule sorted_sort_key)
    show "\<forall>r\<in>set (sort_key (\<lambda>r. the (Trip_Id r)) (filter (\<lambda>r. Trip_Id r \<noteq> None) tbl)). Trip_Id r \<noteq> None"
      by simp
    show "\<forall>r\<in>set (filter (\<lambda>r. Trip_Id r = None) tbl). Trip_Id r = None"
      by simp
  qed
  have "length out = length tbl" "mset out = mset tbl"
    by (simp_all add: out_def length_order_by_trip_id mset_order_by_trip_id)
  moreover have "conn w' = conn w" by (simp add: w'_def)
  ultimately show ?thesis using run written split by blast
qed

theorem export_writes_all_rows_sorted_witness:
  "lookup (fsys (projr (export_as_parquet loaded_world))) [''data'', ''tbs.parquet'']
     = Some (File (Parquet [sample_trip (Some 7) 30, sample_trip (Some 9) 10, sample_trip None 20]))"
proof -
  have h1: "tbs_trips (conn loaded_world) = Some [sample_trip (Some 9) 10, sample_trip None 20, sample_trip (Some 7) 30]"
    by (simp add: loaded_world_def)
  have h2: "is_dir (fsys loaded_world) [''data'']"
    by (simp add: loaded_world_def is_dir_def lookup_def)
  have h3: "\<not> is_dir (fsys loaded_world) [''data'', ''tbs.parquet'']"
    by (simp add: loaded_world_def is_dir_def lookup_def)
  from export_writes_all_rows_sorted[OF h1 h2 h3]
  obtain w' out where w': "export_as_parquet loaded_world = Inr w'"
    "lookup (fsys w') [''data'', ''tbs.parquet''] = Some (File (Parquet out))"
    by blast
  have "export_as_parquet loaded_world = Inr (loaded_world\<lparr>LOGGER := [(INFO, ''Saving to parquet'')],
      fsys := [([''data''], Dir), ([''data'', ''tbs.parquet''],
         File (Parquet [sample_trip (Some 7) 30, sample_trip (Some 9) 10, sample_trip None 20]))]\<rparr>)"
    by (simp add: export_as_parquet_def log_record_def loaded_world_def copy_to_def is_dir_def
        lookup_def order_by_trip_id_def sample_trip_def)
  with w' show ?thesis by (auto simp: lookup_def)
qed

section \<open>Properties of fetch and unpack\<close>






text \<open>
  Claim C3 says that a response with a non-success status makes the download propagate
  an error. The loop never reads the status code (there is no
  \<^verbatim>\<open>raise_for_status()\<close>): a 404 response whose body is a zip archive is extracted
  like any other and the run returns normally.
\<close>

theorem download_ignores_status_counterexample:
  "download_data [2021] True not_found_net fresh_world = Inr
     \<lparr>fsys = [([''data''], Dir), ([''data'', ''error.txt''], File (Raw ''Not Found''))],
      conn = \<lparr>types = [], tbs_trips = None\<rparr>,
      LOGGER = [(INFO, ''Beginning data download''), (INFO, ''Downloading data for year: 2021'')],
      requests = [download_url 2021 ''ddc039f6-07fa-47a3-a707-0121ade3b307'']\<rparr>"
  by (simp add: download_data_def YEAR_MAP_def download_year_def fetch_extract_def log_record_def
      not_found_net_def fresh_world_def extract_member_def arcname_def lookup_def fixups_def
      BAD_YEAR_def REMOVE_FOLDER_def str_int_def str_nat.simps)

lemma download_year_requests:
  assumes "download_year unzip net item w = Inl (e, w') \<or> download_year unzip net item w = Inr w'"
  shows "requests w' = requests w @ [download_url (fst item) (snd item)]"
  using assms
  by (auto simp: download_year_def fetch_extract_def log_record_def Let_def
      split: sum.splits prod.splits http_result.splits content.splits if_splits)

lemma download_year_fetch_error:
  assumes "fetch_error (net (download_url (fst item) (snd item))) = Some err"
  shows "\<exists>w'. download_year unzip net item w = Inl (err, w')"
  using assms
  by (auto simp: download_year_def fetch_extract_def fetch_error_def Let_def
      split: http_result.splits content.splits)

lemma download_loop_abort:
  assumes "item \<in> set items"
    and "fetch_error (net (download_url (fst item) (snd item))) = Some err"
  shows "\<exists>e w' reached. download_loop unzip net items w = Inl (e, w')
     \<and> prefix reached items
     \<and> requests w' = requests w @ map (\<lambda>x. download_url (fst x) (snd x)) reached
     \<and> (item \<in> set reached \<longrightarrow> e = err \<and> last reached = item)"
  using assms(1)
proof (induction items arbitrary: w)
  case Nil
  then show ?case by simp
next
  case (Cons x xs)
  show ?case
  proof (cases "download_year unzip net x w")
    case (Inl a)
    obtain e w' where a: "a = (e, w')" by (cases a)
    have req: "requests w' = requests w @ [download_url (fst x) (snd x)]"
      using download_year_requests[of unzip net x w e w'] Inl a by simp
    have "e = err" if "x = item"
      using download_year_fetch_error[where net=net, OF assms(2), of unzip w] Inl a that by simp
    then show ?thesis
      using Inl a req by (intro exI[of _ e] exI[of _ w'] exI[of _ "[x]"]) auto
  next
    case (Inr w1)
    have req: "requests w1 = requests w @ [download_url (fst x) (snd x)]"
      using download_year_requests[of unzip net x w _ w1] Inr by simp
    have "x \<noteq> item"
      using download_year_fetch_error[where net=net, OF assms(2), of unzip w] Inr by auto
    with Cons.prems have "item \<in> set xs" by simp
    from Cons.IH[OF this, of w1] obtain e w' reached where
      r: "download_loop unzip net xs w1 = Inl (e, w')" "prefix reached xs"
      "requests w' = requests w1 @ map (\<lambda>x. download_url (fst x) (snd x)) reached"
      "item \<in> set reached \<longrightarrow> e = err \<and> last reached = item"
      by blast
    show ?thesis
      using Inr r req \<open>x \<noteq> item\<close>
      by (intro exI[of _ e] exI[of _ w'] exI[of _ "x # reached"]) auto
  qed
qed

lemma distinct_YEAR_MAP: "distinct YEAR_MAP"
  by (simp add: YEAR_MAP_def)

text \<open>
  Claim C3, amended. For every requested year, if the GET for that year's archive
  raises (a network error), or returns a body that is not a zip archive (as the error
  page of a non-success status is), the run aborts with an error. The GETs issued by
  the run are those of the requested years up to the year at which it stopped, one
  each, in order: when the run reaches the failing year, its GET is the last one
  issued (no retry) and the error raised is the ConnectionError, or the BadZipFile, of
  that year.
\<close>

theorem download_fetch_error_aborts:
  assumes "item \<in> set YEAR_MAP" and "fst item \<in> set years"
    and "fetch_error (net (download_url (fst item) (snd item))) = Some err"
  shows "\<exists>e w' reached. download_data years unzip net w = Inl (e, w')
     \<and> prefix reached (filter (\<lambda>x. fst x \<in> set years) YEAR_MAP)
     \<and> distinct reached
     \<and> requests w' = requests w @ map (\<lambda>x. download_url (fst x) (snd x)) reached
     \<and> (item \<in> set reached \<longrightarrow> e = err \<and> last reached = item)"
proof -
  let ?items = "filter (\<lambda>x. fst x \<in> set years) YEAR_MAP"
  let ?w = "log_record INFO ''Beginning data download'' w"
  from assms(1,2) have "item \<in> set ?items" by simp
  from download_loop_abort[where net=net, OF this assms(3), of unzip ?w] obtain e w' reached where
    r: "download_loop unzip net ?items ?w = Inl (e, w')" "prefix reached ?items"
    "requests w' = requests ?w @ map (\<lambda>x. download_url (fst x) (snd x)) reached"
    "item \<in> set reached \<longrightarrow> e = err \<and> last reached = item"
    by blast
  have "distinct ?items" using distinct_YEAR_MAP by simp
  with r(2) have "distinct reached" by (auto simp: prefix_def)
  moreover have "requests ?w = requests w" by (simp add: log_record_def)
  ultimately show ?thesis
    using r unfolding download_data_def by (intro exI[of _ e] exI[of _ w'] exI[of _ reached]) simp
qed

theorem download_fetch_error_aborts_witness:
  "download_data [2021, 2022, 2023] True offline_2022_net fresh_world = Inl (ConnectionError,
     \<lparr>fsys = [([''data''], Dir), ([''data'', ''Bike share ridership 2021-01.csv''], File (Raw ''january''))],
      conn = \<lparr>types = [], tbs_trips = None\<rparr>,
      LOGGER = [(INFO, ''Beginning data download''), (INFO, ''Downloading data for year: 2021''),
                (INFO, ''Downloading data for year: 2022'')],
      requests = [download_url 2021 ''ddc039f6-07fa-47a3-a707-0121ade3b307'',
                  download_url 2022 ''db10a7b1-2702-481c-b7f0-0c67070104bb'']\<rparr>)"
proof -
  have h1: "(2022, ''db10a7b1-2702-481c-b7f0-0c67070104bb'') \<in> set YEAR_MAP"
    by (simp add: YEAR_MAP_def)
  have h2: "fst (2022 :: int, ''db10a7b1-2702-481c-b7f0-0c67070104bb'') \<in> set [2021, 2022, 2023]"
    by simp
  have h3: "fetch_error (offline_2022_net (download_url (fst (2022 :: int, ''db10a7b1-2702-481c-b7f0-0c67070104bb''))
      (snd (2022 :: int, ''db10a7b1-2702-481c-b7f0-0c67070104bb'')))) = Some ConnectionError"
    by (simp add: fetch_error_def offline_2022_net_def download_url_def str_int_def str_nat.simps)
  from download_fetch_error_aborts[where net=offline_2022_net, OF h1 h2 h3, of True fresh_world]
  obtain e w' where aborted: "download_data [2021, 2022, 2023] True offline_2022_net fresh_world = Inl (e, w')"
    by blast
  have "download_data [2021, 2022, 2023] True offline_2022_net fresh_world = Inl (ConnectionError,
     \<lparr>fsys = [([''data''], Dir), ([''data'', ''Bike share ridership 2021-01.csv''], File (Raw ''january''))],
      conn = \<lparr>types = [], tbs_trips = None\<rparr>,
      LOGGER = [(INFO, ''Beginning data download''), (INFO, ''Downloading data for year: 2021''),
                (INFO, ''Downloading data for year: 2022'')],
      requests = [download_url 2021 ''ddc039f6-07fa-47a3-a707-0121ade3b307'',
                  download_url 2022 ''db10a7b1-2702-481c-b7f0-0c67070104bb'']\<rparr>)"
    by (simp add: download_data_def YEAR_MAP_def download_year_def fetch_extract_def log_record_def
      offline_2022_net_def fresh_world_def extract_member_def arcname_def lookup_def fixups_def
      BAD_YEAR_def REMOVE_FOLDER_def download_url_def str_int_def str_nat.simps)
  with aborted show ?thesis by simp
qed

section \<open>Properties of cleanup\<close>

lemma strict_prefix_snoc_iff: "strict_prefix r (xs @ [x]) \<longleftrightarrow> prefix r xs"
  by (auto simp: strict_prefix_def)

lemma set_butlast_prefixes: "set (butlast (prefixes q)) = {r. strict_prefix r q}"
proof (cases q rule: rev_cases)
  case Nil
  then show ?thesis by simp
next
  case (snoc xs x)
  have "butlast (prefixes (xs @ [x])) = prefixes xs" by simp
  then show ?thesis
    unfolding snoc by (simp only: strict_prefix_snoc_iff set_prefixes_eq)
qed

lemma below_iff:
  "below fs p q \<longleftrightarrow> strict_prefix p q \<and> (\<forall>r. prefix p r \<and> strict_prefix r q \<longrightarrow> is_dir fs r)"
  unfolding below_def list_all_iff set_butlast_prefixes by blast

lemma set_listdir: "set (listdir fs p) = {name. map_of fs (p @ [name]) \<noteq> None}"
proof (intro set_eqI iffI)
  fix n assume "n \<in> set (listdir fs p)"
  then obtain q nd where "(q, nd) \<in> set fs" "q \<noteq> []" "butlast q = p" "last q = n"
    by (auto simp: listdir_def)
  then have "(p @ [n], nd) \<in> set fs" using append_butlast_last_id[of q] by simp
  then have "p @ [n] \<in> fst ` set fs" by force
  then show "n \<in> {name. map_of fs (p @ [name]) \<noteq> None}"
    by (simp add: map_of_eq_None_iff)
next
  fix n assume "n \<in> {name. map_of fs (p @ [name]) \<noteq> None}"
  then obtain nd where "(p @ [n], nd) \<in> set fs"
    by (auto dest: map_of_SomeD)
  then show "n \<in> set (listdir fs p)"
    by (force simp: listdir_def image_iff)
qed

lemma scandir_Some:
  assumes "scandir fs root = Some (dirs, files)"
  shows "is_dir fs root"
    and "set dirs = {d. is_dir fs (root @ [d])}"
    and "set files = {f. lookup fs (root @ [f]) \<noteq> None \<and> \<not> is_dir fs (root @ [f])}"
  using assms
  by (auto simp: scandir_def set_listdir is_dir_def lookup_def split: if_splits)

lemma scandir_None: "scandir fs root = None \<longleftrightarrow> \<not> is_dir fs root"
  by (simp add: scandir_def)

lemma is_file_iff: "is_file fs q \<longleftrightarrow> (\<exists>c. lookup fs q = Some (File c))"
  by (auto simp: is_file_def split: option.splits node.splits)

lemma unlink_csv_lookup:
  "\<exists>fs'. unlink_csv root files fs = Inr fs'
     \<and> (\<forall>q. lookup fs' q = (if (\<exists>f\<in>set files. q = root @ [f]) \<and> csv_file fs q then None else lookup fs q))"
proof (induction files arbitrary: fs)
  case Nil
  then show ?case by simp
next
  case (Cons f files)
  show ?case
  proof (cases "is_file fs (root @ [f]) \<and> path_suffix f = ''.csv''")
    case True
    then obtain c where c: "lookup fs (root @ [f]) = Some (File c)" by (auto simp: is_file_iff)
    define fs1 where "fs1 = AList.delete (root @ [f]) fs"
    have u: "unlink (root @ [f]) fs = Inr fs1" by (simp add: unlink_def c fs1_def)
    have l1: "lookup fs1 q = (if q = root @ [f] then None else lookup fs q)" for q
      by (simp add: fs1_def lookup_delete)
    from Cons.IH[of fs1] obtain fs' where fs': "unlink_csv root files fs1 = Inr fs'"
      "\<And>q. lookup fs' q = (if (\<exists>f\<in>set files. q = root @ [f]) \<and> csv_file fs1 q then None else lookup fs1 q)"
      by blast
    have "lookup fs' q = (if (\<exists>g\<in>set (f # files). q = root @ [g]) \<and> csv_file fs q then None else lookup fs q)" for q
      using True by (auto simp: fs'(2) l1 csv_file_def is_file_iff)
    moreover have "unlink_csv root (f # files) fs = Inr fs'"
      using True u fs'(1) by simp
    ultimately show ?thesis by blast
  next
    case False
    from Cons.IH[of fs] obtain fs' where fs': "unlink_csv root files fs = Inr fs'"
      "\<And>q. lookup fs' q = (if (\<exists>f\<in>set files. q = root @ [f]) \<and> csv_file fs q then None else lookup fs q)"
      by blast
    have "lookup fs' q = (if (\<exists>g\<in>set (f # files). q = root @ [g]) \<and> csv_file fs q then None else lookup fs q)" for q
      using False by (auto simp: fs'(2) csv_file_def)
    moreover have "unlink_csv root (f # files) fs = Inr fs'"
      using False fs'(1) by auto
    ultimately show ?thesis by blast
  qed
qed


lemma below_step:
  assumes "is_dir fs root"
  shows "below fs root q \<longleftrightarrow>
    (q \<noteq> [] \<and> butlast q = root) \<or> (\<exists>d. is_dir fs (root @ [d]) \<and> below fs (root @ [d]) q)"
proof
  assume b: "below fs root q"
  then have "strict_prefix root q" by (simp add: below_iff)
  then obtain x rest where q: "q = root @ x # rest" by (rule strict_prefixE')
  show "(q \<noteq> [] \<and> butlast q = root) \<or> (\<exists>d. is_dir fs (root @ [d]) \<and> below fs (root @ [d]) q)"
  proof (cases "rest = []")
    case True
    with q show ?thesis by simp
  next
    case False
    then obtain y ys where rest: "rest = y # ys" by (cases rest) auto
    have "q = (root @ [x]) @ y # ys" by (simp add: q rest)
    then have sp: "strict_prefix (root @ [x]) q" by (rule strict_prefixI')
    moreover have "prefix root (root @ [x])" by simp
    ultimately have "is_dir fs (root @ [x])" using b unfolding below_iff by blast
    moreover have "below fs (root @ [x]) q"
      unfolding below_iff
    proof (intro conjI allI impI)
      show "strict_prefix (root @ [x]) q" by (rule sp)
    next
      fix r assume r: "prefix (root @ [x]) r \<and> strict_prefix r q"
      then have "prefix root r" by (blast dest: append_prefixD)
      with r b show "is_dir fs r" unfolding below_iff by blast
    qed
    ultimately show ?thesis by blast
  qed
next
  assume "(q \<noteq> [] \<and> butlast q = root) \<or> (\<exists>d. is_dir fs (root @ [d]) \<and> below fs (root @ [d]) q)"
  then show "below fs root q"
  proof
    assume d: "q \<noteq> [] \<and> butlast q = root"
    then have q: "q = root @ [last q]" using append_butlast_last_id[of q] by simp
    show ?thesis
      unfolding below_iff
    proof (intro conjI allI impI)
      from q have "q = root @ last q # []" by simp
      then show "strict_prefix root q" by (rule strict_prefixI')
    next
      fix r assume r: "prefix root r \<and> strict_prefix r q"
      then have "strict_prefix r (root @ [last q])" using q by simp
      then have "prefix r root" by (auto simp: strict_prefix_def)
      with r have "r = root" by (simp add: prefix_order.antisym)
      with assms show "is_dir fs r" by simp
    qed
  next
    assume "\<exists>d. is_dir fs (root @ [d]) \<and> below fs (root @ [d]) q"
    then obtain d where d: "is_dir fs (root @ [d])" "below fs (root @ [d]) q" by blast
    from d(2) have "strict_prefix (root @ [d]) q" by (simp add: below_iff)
    then obtain z zs where "q = (root @ [d]) @ z # zs" by (rule strict_prefixE')
    then have q: "q = root @ d # z # zs" by simp
    show ?thesis
      unfolding below_iff
    proof (intro conjI allI impI)
      show "strict_prefix root q" using q by (rule strict_prefixI')
    next
      fix r assume r: "prefix root r \<and> strict_prefix r q"
      show "is_dir fs r"
      proof (cases "r = root")
        case True
        with assms show ?thesis by simp
      next
        case False
        with r have "strict_prefix root r" by (simp add: strict_prefix_def)
        then obtain y ys where ry: "r = root @ y # ys" by (rule strict_prefixE')
        from r have "prefix r q" by (simp add: strict_prefix_def)
        then have "prefix (y # ys) (d # z # zs)" unfolding q ry by simp
        then have "y = d" by simp
        with ry have "prefix (root @ [d]) r" by simp
        with r d(2) show ?thesis unfolding below_iff by blast
      qed
    qed
  qed
qed


lemma below_not_dir: "\<not> is_dir fs root \<Longrightarrow> \<not> below fs root q"
  unfolding below_iff by blast

lemma below_cong: "(\<And>r. is_dir fs1 r = is_dir fs r) \<Longrightarrow> below fs1 p q = below fs p q"
  unfolding below_iff by simp

lemma is_dir_not_file: "is_dir fs q \<Longrightarrow> \<not> is_file fs q"
  by (simp add: is_dir_def is_file_def)

lemma rm_walk_lookup:
  "\<exists>fs'. rm_walk stack fs = Inr fs'
     \<and> (\<forall>q. lookup fs' q = (if csv_file fs q \<and> (\<exists>p\<in>set stack. below fs p q) then None else lookup fs q))"
proof (induction stack fs rule: rm_walk.induct)
  case (1 fs)
  then show ?case by simp
next
  case (2 root stack fs)
  show ?case
  proof (cases "scandir fs root")
    case None
    then have nd: "\<not> is_dir fs root" by (simp add: scandir_None)
    from "2.IH"(1)[OF None] obtain fs' where fs': "rm_walk stack fs = Inr fs'"
      "\<And>q. lookup fs' q = (if csv_file fs q \<and> (\<exists>p\<in>set stack. below fs p q) then None else lookup fs q)"
      by blast
    have "rm_walk (root # stack) fs = Inr fs'" using None fs'(1) by simp
    moreover have "lookup fs' q = (if csv_file fs q \<and> (\<exists>p\<in>set (root # stack). below fs p q) then None else lookup fs q)" for q
      using below_not_dir[OF nd, of q] by (simp add: fs'(2))
    ultimately show ?thesis by blast
  next
    case (Some x2)
    obtain dirs files where x2: "x2 = (dirs, files)" by (cases x2)
    have sc: "scandir fs root = Some (dirs, files)" using Some x2 by simp
    note s = scandir_Some[OF sc]
    from unlink_csv_lookup[of root files fs] obtain fs1 where
      fs1: "unlink_csv root files fs = Inr fs1"
      "\<And>q. lookup fs1 q = (if (\<exists>f\<in>set files. q = root @ [f]) \<and> csv_file fs q then None else lookup fs q)"
      by blast
    have direct: "(\<exists>f\<in>set files. q = root @ [f]) \<longleftrightarrow> (q \<noteq> [] \<and> butlast q = root)" if "is_file fs q" for q
    proof
      assume "\<exists>f\<in>set files. q = root @ [f]"
      then show "q \<noteq> [] \<and> butlast q = root" by auto
    next
      assume d: "q \<noteq> [] \<and> butlast q = root"
      then have q: "q = root @ [last q]" using append_butlast_last_id[of q] by simp
      from that have "lookup fs q \<noteq> None" "\<not> is_dir fs q"
        by (auto simp: is_file_iff is_dir_def)
      with q have "last q \<in> set files" unfolding s(3) by simp
      with q show "\<exists>f\<in>set files. q = root @ [f]" by blast
    qed
    have l1: "lookup fs1 q = (if q \<noteq> [] \<and> butlast q = root \<and> csv_file fs q then None else lookup fs q)" for q
      using direct[of q] by (auto simp: fs1(2) csv_file_def)
    have dir_same: "is_dir fs1 r = is_dir fs r" for r
      using is_dir_not_file[of fs r] by (auto simp: l1 is_dir_def csv_file_def)
    have below_same: "below fs1 p q = below fs p q" for p q
      by (rule below_cong) (rule dir_same)
    have csv1: "csv_file fs1 q \<longleftrightarrow> csv_file fs q \<and> \<not> (q \<noteq> [] \<and> butlast q = root)" for q
      by (auto simp: csv_file_def is_file_iff l1)
    from "2.IH"(2)[OF Some x2[symmetric] fs1(1)] obtain fs' where
      fs': "rm_walk (map (\<lambda>d. root @ [d]) dirs @ stack) fs1 = Inr fs'"
      "\<And>q. lookup fs' q = (if csv_file fs1 q \<and> (\<exists>p\<in>set (map (\<lambda>d. root @ [d]) dirs @ stack). below fs1 p q)
                            then None else lookup fs1 q)"
      by blast
    have children: "(\<exists>p\<in>set (map (\<lambda>d. root @ [d]) dirs). below fs p q)
        \<longleftrightarrow> (\<exists>d. is_dir fs (root @ [d]) \<and> below fs (root @ [d]) q)" for q
      unfolding set_map s(2) by blast
    have step: "below fs root q \<longleftrightarrow> (q \<noteq> [] \<and> butlast q = root) \<or> (\<exists>p\<in>set (map (\<lambda>d. root @ [d]) dirs). below fs p q)" for q
      unfolding children by (rule below_step[OF s(1)])
    have "lookup fs' q = (if csv_file fs q \<and> (\<exists>p\<in>set (root # stack). below fs p q) then None else lookup fs q)" for q
    proof (cases "csv_file fs q")
      case False
      then show ?thesis by (simp add: fs'(2) csv1 l1)
    next
      case csv: True
      show ?thesis
      proof (cases "q \<noteq> [] \<and> butlast q = root")
        case True
        then have "below fs root q" using step by blast
        then show ?thesis using csv True by (simp add: fs'(2) csv1 l1)
      next
        case False
        then have "below fs root q \<longleftrightarrow> (\<exists>p\<in>set (map (\<lambda>d. root @ [d]) dirs). below fs p q)"
          using step by blast
        moreover have "csv_file fs1 q" using csv False by (simp only: csv1 simp_thms)
        moreover have "lookup fs1 q = lookup fs q" using False unfolding l1 by (cases "q = []") auto
        ultimately show ?thesis
          by (simp add: fs'(2) below_same bex_Un csv)
      qed
    qed
    moreover have "rm_walk (root # stack) fs = Inr fs'"
      using sc fs1(1) fs'(1) by simp
    ultimately show ?thesis by blast
  qed
qed


lemma path_suffix_csv_iff:
  "path_suffix name = ''.csv'' \<longleftrightarrow> (\<exists>stem. stem \<noteq> [] \<and> name = stem @ ''.csv'')"
proof
  assume a: "path_suffix name = ''.csv''"
  define i where "i = length name - 1 - length (takeWhile (\<lambda>c. c \<noteq> CHR ''.'') (rev name))"
  from a have "0 < i" "drop i name = ''.csv''"
    by (auto simp: path_suffix_def Let_def i_def split: if_splits)
  then have "take i name \<noteq> []" "name = take i name @ ''.csv''"
    using append_take_drop_id[of i name] by (auto simp del: append_take_drop_id)
  then show "\<exists>stem. stem \<noteq> [] \<and> name = stem @ ''.csv''" by blast
next
  assume "\<exists>stem. stem \<noteq> [] \<and> name = stem @ ''.csv''"
  then obtain stem where stem: "stem \<noteq> []" "name = stem @ ''.csv''" by blast
  then show "path_suffix name = ''.csv''"
    by (simp add: path_suffix_def)
qed

text \<open>
  Claim C9. \<^verbatim>\<open>remove_csv\<close> always returns normally. Afterwards no file that
  exists below \<^verbatim>\<open>data/\<close>, at any depth, has the suffix \<^verbatim>\<open>.csv\<close> (by
  \<open>path_suffix_csv_iff\<close>: a name that ends in \<^verbatim>\<open>.csv\<close> after a non-empty stem).
  A path that was not such a CSV file holds what it held before, so no other file and
  no directory is deleted; the only change to any path is that a CSV file that existed
  below \<^verbatim>\<open>data/\<close> is gone. The database is untouched.
\<close>

theorem remove_csv_deletes_exactly_csv:
  "\<exists>w'. remove_csv w = Inr w'
     \<and> (\<forall>q. below (fsys w') [''data''] q \<and> is_file (fsys w') q \<longrightarrow> path_suffix (last q) \<noteq> ''.csv'')
     \<and> (\<forall>q. \<not> csv_file (fsys w) q \<longrightarrow> lookup (fsys w') q = lookup (fsys w) q)
     \<and> (\<forall>q. lookup (fsys w') q = lookup (fsys w) q
            \<or> (csv_file (fsys w) q \<and> below (fsys w) [''data''] q \<and> lookup (fsys w') q = None))
     \<and> conn w' = conn w"
proof -
  from rm_walk_lookup[of "[[''data'']]" "fsys w"] obtain fs' where
    fs': "rm_walk [[''data'']] (fsys w) = Inr fs'"
    "\<And>q. lookup fs' q = (if csv_file (fsys w) q \<and> (\<exists>p\<in>set [[''data'']]. below (fsys w) p q)
                          then None else lookup (fsys w) q)"
    by blast
  define w' where "w' = w\<lparr>LOGGER := LOGGER w @ [(INFO, ''Removing csv files'')], fsys := fs'\<rparr>"
  have run: "remove_csv w = Inr w'"
    by (simp add: remove_csv_def log_record_def fs'(1) w'_def del: rm_walk.simps)
  have l: "lookup (fsys w') q = (if csv_file (fsys w) q \<and> below (fsys w) [''data''] q then None else lookup (fsys w) q)" for q
    by (simp add: w'_def fs'(2))
  have dir_same: "is_dir (fsys w') r = is_dir (fsys w) r" for r
    using is_dir_not_file[of "fsys w" r] by (auto simp: l is_dir_def csv_file_def)
  have below_same: "below (fsys w') p q = below (fsys w) p q" for p q
    by (rule below_cong) (rule dir_same)
  have none_left: "path_suffix (last q) \<noteq> ''.csv''" if "below (fsys w') [''data''] q" "is_file (fsys w') q" for q
  proof
    assume csv: "path_suffix (last q) = ''.csv''"
    from that(2) obtain c where c: "lookup (fsys w') q = Some (File c)" by (auto simp: is_file_iff)
    then have "lookup (fsys w) q = Some (File c)" unfolding l by (auto split: if_splits)
    then have "csv_file (fsys w) q" using csv by (simp add: csv_file_def is_file_iff)
    with that(1) have "lookup (fsys w') q = None" unfolding l below_same by simp
    with c show False by simp
  qed
  have "conn w' = conn w" by (simp add: w'_def)
  with run none_left l show ?thesis
    by (intro exI[of _ w']) auto
qed

theorem remove_csv_deletes_exactly_csv_witness:
  "fsys (projr (remove_csv cleanup_world)) =
     [([''data''], Dir),
      ([''data'', ''tbs.db''], File (Raw ''database'')),
      ([''data'', ''archive''], Dir),
      ([''data'', ''archive'', ''readme.txt''], File (Raw ''notes'')),
      ([''backup.csv''], File (Raw ''outside the working directory''))]"
proof -
  from remove_csv_deletes_exactly_csv[of cleanup_world]
  obtain w' where w': "remove_csv cleanup_world = Inr w'" by blast
  have "remove_csv cleanup_world = Inr (cleanup_world\<lparr>LOGGER := [(INFO, ''Removing csv files'')],
     fsys := [([''data''], Dir),
      ([''data'', ''tbs.db''], File (Raw ''database'')),
      ([''data'', ''archive''], Dir),
      ([''data'', ''archive'', ''readme.txt''], File (Raw ''notes'')),
      ([''backup.csv''], File (Raw ''outside the working directory''))]\<rparr>)"
    by (simp add: remove_csv_def log_record_def cleanup_world_def scandir_def listdir_def
        is_dir_def is_file_def lookup_def unlink_def path_suffix_def)
  with w' show ?thesis by auto
qed

section \<open>Properties of the fixups\<close>

subsection \<open>The nested archive\<close>














subsection \<open>Flattening\<close>

lemma has_entries_iff: "has_entries fs p \<longleftrightarrow> (\<exists>q. strict_prefix p q \<and> map_of fs q \<noteq> None)"
proof
  assume "has_entries fs p"
  then obtain q n where "(q, n) \<in> set fs" "strict_prefix p q"
    by (auto simp: has_entries_def list_ex_iff)
  then have "q \<in> fst ` set fs" by force
  then have "map_of fs q \<noteq> None" by (simp add: map_of_eq_None_iff)
  with \<open>strict_prefix p q\<close> show "\<exists>q. strict_prefix p q \<and> map_of fs q \<noteq> None" by blast
next
  assume "\<exists>q. strict_prefix p q \<and> map_of fs q \<noteq> None"
  then obtain q n where "strict_prefix p q" "map_of fs q = Some n" by auto
  then have "(q, n) \<in> set fs" by (auto dest: map_of_SomeD)
  with \<open>strict_prefix p q\<close> show "has_entries fs p"
    by (auto simp: has_entries_def list_ex_iff)
qed

lemma rename_file:
  assumes "lookup fs src = Some (File c)" and "src \<noteq> dst" and "is_dir fs (butlast dst)"
    and "\<not> is_dir fs dst"
  shows "rename src dst fs = Inr (AList.update dst (File c) (AList.delete src fs))"
  using assms by (auto simp: rename_def is_dir_def split: option.splits node.splits)

lemma move_files_lookup:
  assumes "distinct files"
    and "\<forall>f\<in>set files. is_file fs (folder @ [f]) \<and> \<not> is_dir fs [''data'', f]"
    and "is_dir fs [''data'']"
    and "length folder = 2"
  shows "\<exists>fs'. move_files folder files fs = Inr fs'
     \<and> (\<forall>q. lookup fs' q =
            (if \<exists>f\<in>set files. q = [''data'', f] then lookup fs (folder @ [last q])
             else if \<exists>f\<in>set files. q = folder @ [f] then None
             else lookup fs q))"
  using assms(1,2,3)
proof (induction files arbitrary: fs)
  case Nil
  then show ?case by simp
next
  case (Cons f files)
  let ?src = "folder @ [f]" and ?dst = "[''data'', f]"
  from Cons.prems(2) obtain c where c: "lookup fs ?src = Some (File c)"
    by (auto simp: is_file_iff)
  have ne: "?src \<noteq> ?dst" using assms(4) by (auto dest: arg_cong[where f=length])
  have free: "\<not> is_dir fs ?dst" using Cons.prems(2) by simp
  define fs1 where "fs1 = AList.update ?dst (File c) (AList.delete ?src fs)"
  have moved: "rename ?src ?dst fs = Inr fs1"
    unfolding fs1_def using c ne Cons.prems(3) free by (intro rename_file) simp_all
  have l1: "lookup fs1 q = (if q = ?dst then Some (File c) else if q = ?src then None else lookup fs q)" for q
    by (simp add: fs1_def lookup_update lookup_delete)
  have len: "length (folder @ [g]) \<noteq> length [''data'', h]" for g h :: string
    using assms(4) by simp
  have ne_any: "folder @ [g] \<noteq> [''data'', h]" for g h :: string
    using len[of g h] by (auto dest: arg_cong[where f=length])
  have p1: "distinct files" using Cons.prems(1) by simp
  have fnotin: "f \<notin> set files" using Cons.prems(1) by simp
  have p2: "\<forall>g\<in>set files. is_file fs1 (folder @ [g]) \<and> \<not> is_dir fs1 [''data'', g]"
  proof
    fix g assume g: "g \<in> set files"
    with fnotin have gf: "g \<noteq> f" by auto
    have "lookup fs1 (folder @ [g]) = lookup fs (folder @ [g])"
      using gf ne_any[of g f] by (simp add: l1)
    moreover have "lookup fs1 [''data'', g] = lookup fs [''data'', g]"
      using gf ne_any[of f g] by (auto simp: l1)
    ultimately show "is_file fs1 (folder @ [g]) \<and> \<not> is_dir fs1 [''data'', g]"
      using Cons.prems(2) g by (simp add: is_file_def is_dir_def)
  qed
  have p3: "is_dir fs1 [''data'']"
    using Cons.prems(3) assms(4) by (auto simp: is_dir_def l1 dest: arg_cong[where f=length])
  from Cons.IH[OF p1 p2 p3] obtain fs' where
    fs': "move_files folder files fs1 = Inr fs'"
    "\<And>q. lookup fs' q =
            (if \<exists>g\<in>set files. q = [''data'', g] then lookup fs1 (folder @ [last q])
             else if \<exists>g\<in>set files. q = folder @ [g] then None
             else lookup fs1 q)"
    by blast
  have run: "move_files folder (f # files) fs = Inr fs'"
    by (simp add: moved fs'(1))
  have "lookup fs' q =
            (if \<exists>g\<in>set (f # files). q = [''data'', g] then lookup fs (folder @ [last q])
             else if \<exists>g\<in>set (f # files). q = folder @ [g] then None
             else lookup fs q)" for q
  proof (cases "\<exists>g\<in>set files. q = [''data'', g]")
    case True
    then obtain g where g: "g \<in> set files" "q = [''data'', g]" by blast
    with fnotin have "g \<noteq> f" by auto
    then have "lookup fs1 (folder @ [g]) = lookup fs (folder @ [g])"
      using ne_any[of g f] by (simp add: l1)
    with g show ?thesis by (auto simp: fs'(2))
  next
    case notdst: False
    show ?thesis
    proof (cases "q = ?dst")
      case True
      then have "\<not> (\<exists>g\<in>set files. q = folder @ [g])" using ne_any by auto
      with True notdst c show ?thesis by (simp add: fs'(2) l1)
    next
      case qd: False
      show ?thesis
      proof (cases "\<exists>g\<in>set files. q = folder @ [g]")
        case True
        then have "\<not> (\<exists>g\<in>set (f # files). q = [''data'', g])" using ne_any by auto
        with True notdst show ?thesis by (auto simp: fs'(2))
      next
        case False
        with notdst qd show ?thesis using ne_any by (auto simp: fs'(2) l1)
      qed
    qed
  qed
  with run show ?case by blast
qed


lemma distinct_listdir: "distinct (listdir fs p)"
  by (simp add: listdir_def)

lemma flatten_flat_steps:
  assumes data: "is_dir fs [''data'']"
    and folder: "is_dir fs folder" "length folder = 2"
    and flat: "\<forall>q. strict_prefix folder q \<and> lookup fs q \<noteq> None \<longrightarrow> is_file fs q \<and> butlast q = folder"
    and free: "\<forall>name. is_file fs (folder @ [name]) \<longrightarrow> \<not> is_dir fs [''data'', name]"
  shows "\<exists>files fs3 fs'. scandir fs folder = Some ([], files)
     \<and> move_files folder files fs = Inr fs3
     \<and> rmdir folder fs3 = Inr fs'
     \<and> (\<forall>q. lookup fs' q =
            (if prefix folder q then None
             else if \<exists>name. q = [''data'', name] \<and> is_file fs (folder @ [name])
                  then lookup fs (folder @ [last q])
             else lookup fs q))"
proof -
  obtain dirs files where sc: "scandir fs folder = Some (dirs, files)"
    using folder(1) by (auto simp: scandir_def)
  note s = scandir_Some[OF sc]
  have child_file: "is_file fs (folder @ [name])" if "lookup fs (folder @ [name]) \<noteq> None" for name
  proof -
    have "strict_prefix folder (folder @ [name])"
      by (rule strict_prefixI'[where z=name and zs="[]"]) simp
    with flat that show ?thesis by blast
  qed
  have no_dirs: "dirs = []"
  proof (rule ccontr)
    assume "dirs \<noteq> []"
    then obtain d where "d \<in> set dirs" by (cases dirs) auto
    then have d: "is_dir fs (folder @ [d])" unfolding s(2) by simp
    then have "lookup fs (folder @ [d]) \<noteq> None" by (simp add: is_dir_def)
    from child_file[OF this] d show False using is_dir_not_file by blast
  qed
  have files_set: "f \<in> set files \<longleftrightarrow> is_file fs (folder @ [f])" for f
    unfolding s(3) using child_file[of f] is_dir_not_file[of fs "folder @ [f]"]
    by (auto simp: is_file_iff)
  have dist: "distinct files"
    using sc distinct_listdir[of fs folder] by (auto simp: scandir_def split: if_splits)
  have pre: "\<forall>f\<in>set files. is_file fs (folder @ [f]) \<and> \<not> is_dir fs [''data'', f]"
    using files_set free by blast
  from move_files_lookup[OF dist pre data folder(2)] obtain fs3 where
    fs3: "move_files folder files fs = Inr fs3"
    "\<And>q. lookup fs3 q =
            (if \<exists>f\<in>set files. q = [''data'', f] then lookup fs (folder @ [last q])
             else if \<exists>f\<in>set files. q = folder @ [f] then None
             else lookup fs q)"
    by blast
  have folder_not_dst: "folder \<noteq> [''data'', f]" if "f \<in> set files" for f
  proof
    assume "folder = [''data'', f]"
    with folder(1) have "is_dir fs [''data'', f]" by simp
    with pre that show False by blast
  qed
  have folder_not_src: "folder \<noteq> folder @ [f]" for f :: string by simp
  have folder3: "lookup fs3 folder = Some Dir"
    using folder(1) folder_not_dst by (auto simp: fs3(2) is_dir_def)
  have folder_ne: "folder \<noteq> []" using folder(2) by auto
  have below3: "lookup fs3 q = None" if sp: "strict_prefix folder q" for q
  proof -
    have "length folder < length q" using sp by (rule prefix_length_less)
    then have nd: "\<not> (\<exists>f\<in>set files. q = [''data'', f])" using folder(2) by auto
    show ?thesis
    proof (cases "\<exists>f\<in>set files. q = folder @ [f]")
      case True
      with nd show ?thesis by (simp add: fs3(2))
    next
      case False
      have "lookup fs q = None"
      proof (rule ccontr)
        assume "lookup fs q \<noteq> None"
        with flat sp have q: "is_file fs q" "butlast q = folder" by blast+
        from sp have "q \<noteq> []" by auto
        with q(2) have "q = folder @ [last q]" using append_butlast_last_id[of q] by simp
        with q(1) files_set[of "last q"] False show False by auto
      qed
      with nd False show ?thesis by (simp add: fs3(2))
    qed
  qed
  have empty3: "\<not> has_entries fs3 folder"
  proof
    assume "has_entries fs3 folder"
    then obtain q where q: "strict_prefix folder q" "map_of fs3 q \<noteq> None"
      unfolding has_entries_iff by blast
    then have "q \<noteq> []" by auto
    with q(2) have "lookup fs3 q \<noteq> None" by (simp add: lookup_def)
    with below3[OF q(1)] show False by simp
  qed
  define fs4 where "fs4 = AList.delete folder fs3"
  have removed: "rmdir folder fs3 = Inr fs4"
    using folder3 folder_ne empty3 by (simp add: rmdir_def fs4_def)
  have sc0: "scandir fs folder = Some ([], files)"
    using sc no_dirs by simp
  have l4: "lookup fs4 q = (if q = folder then None else lookup fs3 q)" for q
    using folder_ne by (simp add: fs4_def lookup_delete)
  have "lookup fs4 q =
            (if prefix folder q then None
             else if \<exists>name. q = [''data'', name] \<and> is_file fs (folder @ [name])
                  then lookup fs (folder @ [last q])
             else lookup fs q)" for q
  proof (cases "prefix folder q")
    case True
    then have "q = folder \<or> strict_prefix folder q" by (auto simp: strict_prefix_def)
    then show ?thesis using True below3 by (auto simp: l4)
  next
    case False
    then have "q \<noteq> folder" "\<not> (\<exists>f\<in>set files. q = folder @ [f])" by auto
    moreover have "(\<exists>f\<in>set files. q = [''data'', f]) \<longleftrightarrow> (\<exists>name. q = [''data'', name] \<and> is_file fs (folder @ [name]))"
      using files_set by blast
    ultimately show ?thesis using False by (auto simp: l4 fs3(2))
  qed
  with sc0 fs3(1) removed show ?thesis by blast
qed

lemma flatten_walk_flat:
  assumes data: "is_dir fs [''data'']"
    and folder: "is_dir fs folder" "length folder = 2"
    and flat: "\<forall>q. strict_prefix folder q \<and> lookup fs q \<noteq> None \<longrightarrow> is_file fs q \<and> butlast q = folder"
    and free: "\<forall>name. is_file fs (folder @ [name]) \<longrightarrow> \<not> is_dir fs [''data'', name]"
  shows "\<exists>fs'. flatten_walk [folder] fs = Inr fs'
     \<and> (\<forall>q. lookup fs' q =
            (if prefix folder q then None
             else if \<exists>name. q = [''data'', name] \<and> is_file fs (folder @ [name])
                  then lookup fs (folder @ [last q])
             else lookup fs q))"
proof -
  from flatten_flat_steps[OF assms] obtain files fs3 fs' where
    steps: "scandir fs folder = Some ([], files)" "move_files folder files fs = Inr fs3"
      "rmdir folder fs3 = Inr fs'"
    and l: "\<forall>q. lookup fs' q =
            (if prefix folder q then None
             else if \<exists>name. q = [''data'', name] \<and> is_file fs (folder @ [name])
                  then lookup fs (folder @ [last q])
             else lookup fs q)"
    by blast
  have "flatten_walk [folder] fs = Inr fs'"
    by (simp add: steps)
  with l show ?thesis by blast
qed

lemma flatten_walk_legacy_flat:
  assumes data: "is_dir fs [''data'']"
    and folder: "is_dir fs [''data'', F]"
    and flat: "\<forall>q. strict_prefix [''data'', F] q \<and> lookup fs q \<noteq> None
                 \<longrightarrow> is_file fs q \<and> butlast q = [''data'', F]"
    and free: "\<forall>name. is_file fs ([''data'', F] @ [name]) \<longrightarrow> \<not> is_dir fs [''data'', name]"
  shows "\<exists>fs'. flatten_walk_legacy [[''data'', F]] fs = Inr fs'
     \<and> (\<forall>name bytes. lookup fs ([''data'', F] @ [name]) = Some (File bytes)
            \<longrightarrow> lookup fs' [''data'', name] = Some (File bytes))
     \<and> (\<forall>q. prefix [''data'', F] q \<longrightarrow> lookup fs' q = None)"
proof -
  let ?folder = "[''data'', F]"
  have len: "length ?folder = 2" by simp
  from flatten_flat_steps[OF data folder len flat free] obtain files fs3 fs4 where
    steps: "scandir fs ?folder = Some ([], files)" "move_files ?folder files fs = Inr fs3"
      "rmdir ?folder fs3 = Inr fs4"
    and l: "\<And>q. lookup fs4 q =
            (if prefix ?folder q then None
             else if \<exists>name. q = [''data'', name] \<and> is_file fs (?folder @ [name])
                  then lookup fs (?folder @ [last q])
             else lookup fs q)"
    by blast
  have moved4: "lookup fs4 [''data'', name] = Some (File bytes)"
    if "lookup fs (?folder @ [name]) = Some (File bytes)" for name bytes
  proof -
    from that have f: "is_file fs (?folder @ [name])" by (simp add: is_file_iff)
    have "\<not> prefix ?folder [''data'', name]"
    proof
      assume "prefix ?folder [''data'', name]"
      then have "F = name" by simp
      with folder have "is_dir fs [''data'', name]" by simp
      with free f show False by blast
    qed
    moreover have "\<exists>n. [''data'', name] = [''data'', n] \<and> is_file fs (?folder @ [n])"
      using f by blast
    ultimately have "lookup fs4 [''data'', name] = lookup fs (?folder @ [last [''data'', name]])"
      by (simp only: l if_True if_False)
    with that show ?thesis by simp
  qed
  have gone4: "lookup fs4 q = None" if "prefix ?folder q" for q
    using that by (simp only: l if_True)
  define fs' where "fs' = prune [[''data'']] fs4"
  have anc: "rev (tl (butlast (prefixes ?folder))) = [[''data'']]" by simp
  have removed: "removedirs ?folder fs3 = Inr fs'"
    by (simp only: removedirs_def steps(3) sum.case anc fs'_def)
  have run: "flatten_walk_legacy [?folder] fs = Inr fs'"
    by (simp add: steps(1,2) removed)
  show ?thesis
  proof (cases "rmdir [''data''] fs4")
    case (Inl e)
    then have "fs' = fs4" by (simp add: fs'_def)
    with run moved4 gone4 show ?thesis by blast
  next
    case (Inr fs5)
    then have fs5: "fs' = fs5" by (simp add: fs'_def)
    from Inr have empty: "\<not> has_entries fs4 [''data'']" and del: "fs5 = AList.delete [''data''] fs4"
      by (auto simp: rmdir_def split: option.splits node.splits if_splits)
    have l5: "lookup fs5 q = (if q = [''data''] then None else lookup fs4 q)" for q
      by (simp add: del lookup_delete)
    have no_files: "lookup fs (?folder @ [name]) \<noteq> Some (File bytes)" for name bytes
    proof
      assume "lookup fs (?folder @ [name]) = Some (File bytes)"
      from moved4[OF this] have "map_of fs4 [''data'', name] \<noteq> None" by (simp add: lookup_def)
      moreover have "strict_prefix [''data''] [''data'', name]" by simp
      ultimately have "has_entries fs4 [''data'']" unfolding has_entries_iff by blast
      with empty show False by simp
    qed
    have "lookup fs5 q = None" if "prefix ?folder q" for q
    proof -
      from that have "q \<noteq> [''data'']" by auto
      with gone4[OF that] show ?thesis by (simp add: l5)
    qed
    with run no_files fs5 show ?thesis by blast
  qed
qed

lemma selected_year:
  assumes year: "year \<in> set REMOVE_FOLDER" and item: "(year, resource_id) \<in> set YEAR_MAP"
  shows "filter (\<lambda>x. fst x \<in> set [year]) YEAR_MAP = [(year, resource_id)]"
proof -
  from year have "year = 2022 \<or> year = 2023" by (simp add: REMOVE_FOLDER_def)
  then show ?thesis
  proof
    assume y: "year = 2022"
    with item have "resource_id = ''db10a7b1-2702-481c-b7f0-0c67070104bb''"
      by (simp add: YEAR_MAP_def)
    with y show ?thesis by (simp add: YEAR_MAP_def)
  next
    assume y: "year = 2023"
    with item have "resource_id = ''f0fa6a67-4571-4dd6-9d5a-df010ebed7d1''"
      by (simp add: YEAR_MAP_def)
    with y show ?thesis by (simp add: YEAR_MAP_def)
  qed
qed


text \<open>
  Claim C6, amended. Take a year of the flatten set (2022, 2023), and the file system
  as the top-level extraction of its archive and, for 2022, the nested-archive fixup
  left it (the nested archive itself is deleted by that fixup, not moved). If the
  year-named subfolder then is a directory of \<^verbatim>\<open>data/\<close> in which everything
  stored below it is a file directly inside it, and no such file has the name of a
  directory of \<^verbatim>\<open>data/\<close>, the run for that year returns normally; every file of
  the subfolder is then directly in \<^verbatim>\<open>data/\<close> with its bytes, no path at or
  below the subfolder exists any more, and every other path holds what it held. The
  walk of the older copy, from the same file system, also returns normally with the
  files moved and the subfolder gone.
\<close>

theorem flatten_moves_files_and_removes_folder:
  assumes year: "year \<in> set REMOVE_FOLDER"
    and item: "(year, resource_id) \<in> set YEAR_MAP"
    and response: "net (download_url year resource_id) = Response status (Zip members)"
    and unpacked: "extractall [''data''] members (fsys w) = Inr fs1"
    and nested: "(if year = BAD_YEAR then extract_nested fs1 else Inr fs1) = Inr fs2"
    and data: "is_dir fs2 [''data'']"
    and folder: "is_dir fs2 (year_folder year)"
    and flat: "\<forall>q. strict_prefix (year_folder year) q \<and> lookup fs2 q \<noteq> None
                 \<longrightarrow> is_file fs2 q \<and> butlast q = year_folder year"
    and free: "\<forall>name. is_file fs2 (year_folder year @ [name]) \<longrightarrow> \<not> is_dir fs2 [''data'', name]"
  shows "(\<exists>w'. download_data [year] True net w = Inr w'
     \<and> (\<forall>name bytes. lookup fs2 (year_folder year @ [name]) = Some (File bytes)
            \<longrightarrow> lookup (fsys w') [''data'', name] = Some (File bytes))
     \<and> (\<forall>q. prefix (year_folder year) q \<longrightarrow> lookup (fsys w') q = None)
     \<and> (\<forall>q. \<not> prefix (year_folder year) q
            \<and> (\<forall>name. q = [''data'', name] \<longrightarrow> \<not> is_file fs2 (year_folder year @ [name]))
            \<longrightarrow> lookup (fsys w') q = lookup fs2 q))
   \<and> (\<exists>fs'. flatten_walk_legacy [year_folder year] fs2 = Inr fs'
     \<and> (\<forall>name bytes. lookup fs2 (year_folder year @ [name]) = Some (File bytes)
            \<longrightarrow> lookup fs' [''data'', name] = Some (File bytes))
     \<and> (\<forall>q. prefix (year_folder year) q \<longrightarrow> lookup fs' q = None))"
proof -
  let ?folder = "year_folder year"
  have len: "length ?folder = 2" by (simp add: year_folder_def)
  from flatten_walk_flat[OF data folder len flat free] obtain fs' where
    fs': "flatten_walk [?folder] fs2 = Inr fs'"
    "\<And>q. lookup fs' q =
            (if prefix ?folder q then None
             else if \<exists>name. q = [''data'', name] \<and> is_file fs2 (?folder @ [name])
                  then lookup fs2 (?folder @ [last q])
             else lookup fs2 q)"
    by blast
  have sel: "filter (\<lambda>x. fst x \<in> set [year]) YEAR_MAP = [(year, resource_id)]"
    using year item by (rule selected_year)
  define w0 where "w0 = log_record INFO ''Beginning data download'' w"
  define w1 where "w1 = w0\<lparr>LOGGER := LOGGER w0 @ [(INFO, ''Downloading data for year: '' @ str_int year)],
      requests := requests w0 @ [download_url year resource_id], fsys := fs1\<rparr>"
  have fetched: "fetch_extract net (year, resource_id) w0 = Inr w1"
    using unpacked
    by (simp add: fetch_extract_def response log_record_def w0_def w1_def)
  have fixed: "fixups year (fsys w1) = Inr fs'"
    using nested year
    by (auto simp: fixups_def w1_def fs'(1) simp del: flatten_walk.simps split: if_splits)
  have run: "download_data [year] True net w = Inr (w1\<lparr>fsys := fs'\<rparr>)"
    unfolding download_data_def sel w0_def[symmetric]
    by (simp add: download_year_def fetched fixed)
  have moved: "lookup fs' [''data'', name] = Some (File bytes)"
    if "lookup fs2 (?folder @ [name]) = Some (File bytes)" for name bytes
  proof -
    from that have f: "is_file fs2 (?folder @ [name])" by (simp add: is_file_iff)
    have "\<not> prefix ?folder [''data'', name]"
    proof
      assume "prefix ?folder [''data'', name]"
      then have "?folder = [''data'', name]" by (simp add: year_folder_def)
      with folder have "is_dir fs2 [''data'', name]" by simp
      with free f show False by blast
    qed
    moreover have "\<exists>n. [''data'', name] = [''data'', n] \<and> is_file fs2 (?folder @ [n])"
      using f by blast
    ultimately have "lookup fs' [''data'', name] = lookup fs2 (?folder @ [last [''data'', name]])"
      by (simp only: fs'(2) if_True if_False)
    with that show ?thesis by simp
  qed
  have gone: "lookup fs' q = None" if "prefix ?folder q" for q
    using that by (simp only: fs'(2) if_True)
  have kept: "lookup fs' q = lookup fs2 q"
    if "\<not> prefix ?folder q" "\<forall>name. q = [''data'', name] \<longrightarrow> \<not> is_file fs2 (?folder @ [name])" for q
  proof -
    from that(2) have "\<not> (\<exists>name. q = [''data'', name] \<and> is_file fs2 (?folder @ [name]))" by blast
    with that(1) show ?thesis by (simp only: fs'(2) if_False)
  qed
  have res: "fsys (w1\<lparr>fsys := fs'\<rparr>) = fs'" by simp
  have newer: "\<exists>w'. download_data [year] True net w = Inr w'
     \<and> (\<forall>name bytes. lookup fs2 (?folder @ [name]) = Some (File bytes)
            \<longrightarrow> lookup (fsys w') [''data'', name] = Some (File bytes))
     \<and> (\<forall>q. prefix ?folder q \<longrightarrow> lookup (fsys w') q = None)
     \<and> (\<forall>q. \<not> prefix ?folder q
            \<and> (\<forall>name. q = [''data'', name] \<longrightarrow> \<not> is_file fs2 (?folder @ [name]))
            \<longrightarrow> lookup (fsys w') q = lookup fs2 q)"
  proof (intro exI[of _ "w1\<lparr>fsys := fs'\<rparr>"] conjI allI impI)
    show "download_data [year] True net w = Inr (w1\<lparr>fsys := fs'\<rparr>)" by (rule run)
  next
    fix name bytes assume "lookup fs2 (?folder @ [name]) = Some (File bytes)"
    then show "lookup (fsys (w1\<lparr>fsys := fs'\<rparr>)) [''data'', name] = Some (File bytes)"
      unfolding res by (rule moved)
  next
    fix q assume "prefix ?folder q"
    then show "lookup (fsys (w1\<lparr>fsys := fs'\<rparr>)) q = None"
      unfolding res by (rule gone)
  next
    fix q assume "\<not> prefix ?folder q \<and> (\<forall>name. q = [''data'', name] \<longrightarrow> \<not> is_file fs2 (?folder @ [name]))"
    then show "lookup (fsys (w1\<lparr>fsys := fs'\<rparr>)) q = lookup fs2 q"
      unfolding res using kept by blast
  qed
  have older: "\<exists>fs'. flatten_walk_legacy [?folder] fs2 = Inr fs'
     \<and> (\<forall>name bytes. lookup fs2 (?folder @ [name]) = Some (File bytes)
            \<longrightarrow> lookup fs' [''data'', name] = Some (File bytes))
     \<and> (\<forall>q. prefix ?folder q \<longrightarrow> lookup fs' q = None)"
    using data folder flat free unfolding year_folder_def
    by (rule flatten_walk_legacy_flat)
  from newer older show ?thesis by (rule conjI)
qed


theorem flatten_moves_files_and_removes_folder_witness:
  "download_data [2022] True nested_2022_net fresh_world = Inr
     \<lparr>fsys = [([''data''], Dir),
              ([''data'', ''Bike share ridership 2022-01.csv''], File (Raw ''january'')),
              ([''data'', ''Bike share ridership 2022-11.csv''], File (Raw ''november''))],
      conn = \<lparr>types = [], tbs_trips = None\<rparr>,
      LOGGER = [(INFO, ''Beginning data download''), (INFO, ''Downloading data for year: 2022'')],
      requests = [download_url 2022 ''db10a7b1-2702-481c-b7f0-0c67070104bb'']\<rparr>"
proof -
  define fs2 where "fs2 =
     [([''data''], Dir),
      ([''data'', ''bikeshare-ridership-2022''], Dir),
      ([''data'', ''bikeshare-ridership-2022'', ''Bike share ridership 2022-01.csv''], File (Raw ''january'')),
      ([''data'', ''bikeshare-ridership-2022'', ''Bike share ridership 2022-11.csv''], File (Raw ''november''))]"
  have folder_eq: "year_folder 2022 = [''data'', ''bikeshare-ridership-2022'']"
    by (simp add: year_folder_def str_int_def str_nat.simps)
  have h1: "(2022 :: int) \<in> set REMOVE_FOLDER" by (simp add: REMOVE_FOLDER_def)
  have h2: "(2022, ''db10a7b1-2702-481c-b7f0-0c67070104bb'') \<in> set YEAR_MAP" by (simp add: YEAR_MAP_def)
  have h3: "nested_2022_net (download_url 2022 ''db10a7b1-2702-481c-b7f0-0c67070104bb'') = Response 200 (Zip
        [([''bikeshare-ridership-2022'', ''Bike share ridership 2022-01.csv''], Some (Raw ''january'')),
         ([''bikeshare-ridership-2022'', ''Bike share ridership 2022-11.zip''],
            Some (Zip [([''Bike share ridership 2022-11.csv''], Some (Raw ''november''))]))])"
    by (simp add: nested_2022_net_def)
  have h4: "extractall [''data'']
        [([''bikeshare-ridership-2022'', ''Bike share ridership 2022-01.csv''], Some (Raw ''january'')),
         ([''bikeshare-ridership-2022'', ''Bike share ridership 2022-11.zip''],
            Some (Zip [([''Bike share ridership 2022-11.csv''], Some (Raw ''november''))]))]
        (fsys fresh_world) = Inr unpacked_2022"
    by (simp add: fresh_world_def unpacked_2022_def extract_member_def arcname_def lookup_def)
  have h5: "(if (2022 :: int) = BAD_YEAR then extract_nested unpacked_2022 else Inr unpacked_2022) = Inr fs2"
    by (simp add: BAD_YEAR_def extract_nested_def ZipFile_def unpacked_2022_def jank_file_def
        extract_member_def extract_member_open_def arcname_def lookup_def unlink_def fs2_def)
  have h6: "is_dir fs2 [''data'']" by (simp add: fs2_def is_dir_def lookup_def)
  have h7: "is_dir fs2 (year_folder 2022)" by (simp add: folder_eq fs2_def is_dir_def lookup_def)
  have h8: "\<forall>q. strict_prefix (year_folder 2022) q \<and> lookup fs2 q \<noteq> None
                 \<longrightarrow> is_file fs2 q \<and> butlast q = year_folder 2022"
    by (auto simp: folder_eq fs2_def lookup_def is_file_def split: if_splits)
  have h9: "\<forall>name. is_file fs2 (year_folder 2022 @ [name]) \<longrightarrow> \<not> is_dir fs2 [''data'', name]"
    by (auto simp: folder_eq fs2_def lookup_def is_file_def is_dir_def split: if_splits)
  from flatten_moves_files_and_removes_folder[where net=nested_2022_net, OF h1 h2 h3 h4 h5 h6 h7 h8 h9]
  obtain w' where w': "download_data [2022] True nested_2022_net fresh_world = Inr w'" by blast
  have "download_data [2022] True nested_2022_net fresh_world = Inr
     \<lparr>fsys = [([''data''], Dir),
              ([''data'', ''Bike share ridership 2022-01.csv''], File (Raw ''january'')),
              ([''data'', ''Bike share ridership 2022-11.csv''], File (Raw ''november''))],
      conn = \<lparr>types = [], tbs_trips = None\<rparr>,
      LOGGER = [(INFO, ''Beginning data download''), (INFO, ''Downloading data for year: 2022'')],
      requests = [download_url 2022 ''db10a7b1-2702-481c-b7f0-0c67070104bb'']\<rparr>"
    by (simp add: download_data_def YEAR_MAP_def download_year_def fetch_extract_def log_record_def
      nested_2022_net_def fresh_world_def extract_member_def extract_member_open_def arcname_def
      lookup_def fixups_def
      BAD_YEAR_def REMOVE_FOLDER_def str_int_def str_nat.simps extract_nested_def ZipFile_def
      jank_file_def unlink_def year_folder_def scandir_def listdir_def is_dir_def rmdir_def
      has_entries_def rename_def)
  with w' show ?thesis by auto
qed

text \<open>
  Claim C6 says that after the fixup every file that was inside the year-named
  subfolder is directly in the working directory and the subfolder is gone with its
  whole tree. It fails twice. When the 2023 archive holds a subdirectory in the year's
  folder, the walk removes directories top-down: \<^verbatim>\<open>rmdir\<close> of the folder runs
  while the subdirectory is still in it and raises, so the run aborts with the folder
  and its files in place (the walk of the older copy raises in the same way). And for
  2022 the nested archive, a file of the subfolder after the unpack, is deleted by its
  fixup and is not in the working directory.
\<close>

theorem flatten_fails_on_subdirectory_counterexample:
  "download_data [2023] True nested_dir_2023_net fresh_world = Inl (DirectoryNotEmpty,
     \<lparr>fsys = [([''data''], Dir),
              ([''data'', ''bikeshare-ridership-2023''], Dir),
              ([''data'', ''bikeshare-ridership-2023'', ''Q1''], Dir),
              ([''data'', ''bikeshare-ridership-2023'', ''Q1'', ''Bike share ridership 2023-01.csv''],
                 File (Raw ''january''))],
      conn = \<lparr>types = [], tbs_trips = None\<rparr>,
      LOGGER = [(INFO, ''Beginning data download''), (INFO, ''Downloading data for year: 2023'')],
      requests = [download_url 2023 ''f0fa6a67-4571-4dd6-9d5a-df010ebed7d1'']\<rparr>)
   \<and> download_data [2022] True nested_2022_net fresh_world = Inr
     \<lparr>fsys = [([''data''], Dir),
              ([''data'', ''Bike share ridership 2022-01.csv''], File (Raw ''january'')),
              ([''data'', ''Bike share ridership 2022-11.csv''], File (Raw ''november''))],
      conn = \<lparr>types = [], tbs_trips = None\<rparr>,
      LOGGER = [(INFO, ''Beginning data download''), (INFO, ''Downloading data for year: 2022'')],
      requests = [download_url 2022 ''db10a7b1-2702-481c-b7f0-0c67070104bb'']\<rparr>
   \<and> flatten_walk_legacy [[''data'', ''bikeshare-ridership-2023'']]
        [([''data''], Dir),
         ([''data'', ''bikeshare-ridership-2023''], Dir),
         ([''data'', ''bikeshare-ridership-2023'', ''Q1''], Dir),
         ([''data'', ''bikeshare-ridership-2023'', ''Q1'', ''Bike share ridership 2023-01.csv''],
            File (Raw ''january''))]
      = Inl (DirectoryNotEmpty,
        [([''data''], Dir),
         ([''data'', ''bikeshare-ridership-2023''], Dir),
         ([''data'', ''bikeshare-ridership-2023'', ''Q1''], Dir),
         ([''data'', ''bikeshare-ridership-2023'', ''Q1'', ''Bike share ridership 2023-01.csv''],
            File (Raw ''january''))])"
  by (simp add: download_data_def YEAR_MAP_def download_year_def fetch_extract_def log_record_def
      removedirs_def
      nested_2022_net_def nested_dir_2023_net_def fresh_world_def extract_member_def
      extract_member_open_def arcname_def
      lookup_def fixups_def BAD_YEAR_def REMOVE_FOLDER_def str_int_def str_nat.simps
      extract_nested_def ZipFile_def jank_file_def unlink_def year_folder_def scandir_def
      listdir_def is_dir_def rmdir_def has_entries_def rename_def)

end
